theory Spec2Isabelle
  imports Complex_Main "HOL-Library.Word" "HOL-Library.Log_Nat"
begin

section \<open>The audio relay of the widget dock\<close>

text \<open>
  The development embeds the audio helpers and the live-session handlers of the
  application component: \<open>decode\<close>, \<open>encode\<close>, \<open>decodeAudioData\<close>, the capture callback
  \<open>onaudioprocess\<close>, the session callbacks \<open>onopen\<close>, \<open>onmessage\<close>, \<open>onclose\<close>,
  \<open>onerror\<close>, \<open>startLiveComm\<close> / \<open>stopLiveComm\<close>, and the button that is bound to them.
  Exceptions of the JavaScript run time are values of \<open>error\<close>; a fallible function
  returns \<open>error + 'a\<close> with \<open>Inl\<close> for the exception.
\<close>

datatype error = InvalidCharacterError | RangeError | NotSupportedError | TypeError

type_synonym u8 = "8 word"
type_synonym i16 = "16 word"

text \<open>A JavaScript string is a sequence of 16-bit code units.\<close>

type_synonym jsstring = "16 word list"

definition js :: "string \<Rightarrow> jsstring" where
  "js cs = map (\<lambda>c. word_of_nat (of_char c)) cs"

subsection \<open>The platform's \<open>btoa\<close> and \<open>atob\<close>\<close>

text \<open>
  \<open>btoa\<close> and \<open>atob\<close> are supplied by the browser. They are modelled after the
  HTML standard: \<open>btoa\<close> throws on a code unit above 255 and otherwise emits padded
  base64; \<open>atob\<close> is the forgiving decoder (ASCII whitespace removed, one or two
  trailing \<open>=\<close> removed when the length is a multiple of four, failure when the
  remaining length is 1 modulo 4 or a unit is outside the alphabet, the 24-bit buffer emptied
  three octets at a time, the last 12 or 18 bits giving one or two octets).
\<close>

definition b64_char :: "nat \<Rightarrow> 16 word" where
  "b64_char n =
     (if n < 26 then word_of_nat (65 + n)
      else if n < 52 then word_of_nat (71 + n)
      else if n < 62 then word_of_nat (n - 4)
      else if n = 62 then 43
      else 47)"

definition b64_pad :: "16 word" where
  "b64_pad = 61"

definition sextet_of :: "16 word \<Rightarrow> nat option" where
  "sextet_of u =
     (let k = unat u in
      if 65 \<le> k \<and> k \<le> 90 then Some (k - 65)
      else if 97 \<le> k \<and> k \<le> 122 then Some (k - 71)
      else if 48 \<le> k \<and> k \<le> 57 then Some (k + 4)
      else if k = 43 then Some 62
      else if k = 47 then Some 63
      else None)"

fun btoa_units :: "nat list \<Rightarrow> 16 word list" where
  "btoa_units [] = []"
| "btoa_units [a] =
     (let n = a * 65536
      in [b64_char (n div 262144), b64_char (n div 4096 mod 64), b64_pad, b64_pad])"
| "btoa_units [a, b] =
     (let n = a * 65536 + b * 256
      in [b64_char (n div 262144), b64_char (n div 4096 mod 64),
          b64_char (n div 64 mod 64), b64_pad])"
| "btoa_units (a # b # c # rest) =
     (let n = a * 65536 + b * 256 + c
      in [b64_char (n div 262144), b64_char (n div 4096 mod 64),
          b64_char (n div 64 mod 64), b64_char (n mod 64)] @ btoa_units rest)"

text \<open>
  The six-bit groups behind the units that \<open>btoa_units\<close> emits, without the padding:
  what \<open>atob\<close> has in hand once it has removed the padding and looked every unit up.
\<close>

fun sextets :: "nat list \<Rightarrow> nat list" where
  "sextets [] = []"
| "sextets [a] = (let n = a * 65536 in [n div 262144, n div 4096 mod 64])"
| "sextets [a, b] =
     (let n = a * 65536 + b * 256 in [n div 262144, n div 4096 mod 64, n div 64 mod 64])"
| "sextets (a # b # c # rest) =
     (let n = a * 65536 + b * 256 + c
      in [n div 262144, n div 4096 mod 64, n div 64 mod 64, n mod 64] @ sextets rest)"

definition btoa :: "jsstring \<Rightarrow> error + jsstring" where
  "btoa binary =
     (if list_ex (\<lambda>u. 255 < unat u) binary then Inl InvalidCharacterError
      else Inr (btoa_units (map unat binary)))"

definition is_ascii_whitespace :: "16 word \<Rightarrow> bool" where
  "is_ascii_whitespace u = (u = 9 \<or> u = 10 \<or> u = 12 \<or> u = 13 \<or> u = 32)"

definition strip_padding :: "jsstring \<Rightarrow> jsstring" where
  "strip_padding d =
     (if length d mod 4 = 0 \<and> d \<noteq> [] \<and> last d = b64_pad
      then (if last (butlast d) = b64_pad then butlast (butlast d) else butlast d)
      else d)"

fun atob_groups :: "nat list \<Rightarrow> nat list" where
  "atob_groups (s1 # s2 # s3 # s4 # rest) =
     (let n = s1 * 262144 + s2 * 4096 + s3 * 64 + s4
      in [n div 65536, n div 256 mod 256, n mod 256] @ atob_groups rest)"
| "atob_groups [s1, s2, s3] =
     (let n = (s1 * 4096 + s2 * 64 + s3) div 4 in [n div 256, n mod 256])"
| "atob_groups [s1, s2] = [(s1 * 64 + s2) div 16]"
| "atob_groups [s1] = []"
| "atob_groups [] = []"

definition atob :: "jsstring \<Rightarrow> error + jsstring" where
  "atob text =
     (let d = strip_padding (filter (\<lambda>u. \<not> is_ascii_whitespace u) text)
      in if length d mod 4 = 1 then Inl InvalidCharacterError
         else (case those (map sextet_of d) of
                 None \<Rightarrow> Inl InvalidCharacterError
               | Some ss \<Rightarrow> Inr (map word_of_nat (atob_groups ss))))"

subsection \<open>\<open>decode\<close> and \<open>encode\<close>\<close>

text \<open>
  \<open>decode\<close> stores \<open>charCodeAt(i)\<close> into a \<open>Uint8Array\<close>, which keeps the low eight
  bits; \<open>encode\<close> appends \<open>String.fromCharCode(bytes[i])\<close> and hands the string to
  \<open>btoa\<close>.
\<close>

definition decode :: "jsstring \<Rightarrow> error + u8 list" where
  "decode base64 =
     (case atob base64 of
        Inl e \<Rightarrow> Inl e
      | Inr binaryString \<Rightarrow> Inr (map ucast binaryString))"

definition encode :: "u8 list \<Rightarrow> error + jsstring" where
  "encode bytes = btoa (map ucast bytes)"

subsection \<open>Numbers and typed arrays\<close>

text \<open>
  A JavaScript number is modelled by its exact value: a rational when it is finite, and
  the three special values otherwise. The arithmetic the audio helpers perform on
  samples (multiplying a 32-bit float by \<open>32768\<close>, dividing a 16-bit integer by
  \<open>32768.0\<close>, storing the quotient in a \<open>Float32Array\<close>) is exact in binary floating
  point, so no rounding is modelled for it. Times of the output clock and the playback
  cursor are doubles, and the arithmetic on them does round: see \<open>round64\<close> below.
\<close>

datatype number = Num rat | NaN | PosInf | NegInf

fun times_32768 :: "number \<Rightarrow> number" where
  "times_32768 (Num r) = Num (r * 32768)"
| "times_32768 v = v"

fun div_32768 :: "number \<Rightarrow> number" where
  "div_32768 (Num r) = Num (r / 32768)"
| "div_32768 v = v"

definition trunc_rat :: "rat \<Rightarrow> int" where
  "trunc_rat r = (if 0 \<le> r then \<lfloor>r\<rfloor> else \<lceil>r\<rceil>)"

text \<open>
  Storing a number in an \<open>Int16Array\<close> applies \<open>ToInt16\<close>: \<open>NaN\<close> and the infinities
  give \<open>0\<close>, a finite value is truncated towards zero and reduced modulo \<open>2^16\<close>.
\<close>

fun to_int16 :: "number \<Rightarrow> i16" where
  "to_int16 (Num r) = word_of_int (trunc_rat r)"
| "to_int16 v = 0"

text \<open>
  Reading an \<open>Int16Array\<close> outside its bounds gives \<open>undefined\<close>, which arithmetic
  turns into \<open>NaN\<close>; storing into a \<open>Float32Array\<close> outside its bounds does nothing.
\<close>

definition int16_at :: "i16 list \<Rightarrow> nat \<Rightarrow> number" where
  "int16_at xs j = (if j < length xs then Num (of_int (sint (xs ! j))) else NaN)"

definition store :: "number list \<Rightarrow> nat \<Rightarrow> number \<Rightarrow> number list" where
  "store xs i v = (if i < length xs then xs[i := v] else xs)"

text \<open>
  Typed arrays over one buffer share its bytes in little-endian order.
  \<open>new Int16Array(buffer)\<close> throws a \<open>RangeError\<close> when the byte length of the buffer
  is odd. The \<open>Uint8Array\<close> handed to \<open>decodeAudioData\<close> is the one \<open>decode\<close>
  allocates, which covers its buffer entirely.
\<close>

fun int16_pairs :: "u8 list \<Rightarrow> i16 list" where
  "int16_pairs (lo # hi # rest) = word_of_nat (unat lo + 256 * unat hi) # int16_pairs rest"
| "int16_pairs [lo] = []"
| "int16_pairs [] = []"

definition Int16Array_of_buffer :: "u8 list \<Rightarrow> error + i16 list" where
  "Int16Array_of_buffer buf =
     (if length buf mod 2 \<noteq> 0 then Inl RangeError else Inr (int16_pairs buf))"

definition bytes_of_int16 :: "i16 \<Rightarrow> u8 list" where
  "bytes_of_int16 w = [word_of_nat (unat w mod 256), word_of_nat (unat w div 256)]"

definition Uint8Array_of_int16s :: "i16 list \<Rightarrow> u8 list" where
  "Uint8Array_of_int16s ws = concat (map bytes_of_int16 ws)"

subsection \<open>Double-precision arithmetic\<close>

text \<open>
  A finite double is a rational of the form \<open>n * 2^k / 2^1074\<close> with \<open>n < 2^53\<close>.
  An arithmetic operation of JavaScript yields the double nearest to the exact result,
  a tie going to the even significand. \<open>rne\<close> rounds to the nearest integer in that
  way. \<open>ulp_exp x\<close> is the exponent of the spacing of the doubles around \<open>x\<close>, counted
  from the smallest spacing \<open>2^-1074\<close>: the integer part of \<open>x * 2^1074\<close> has
  \<open>ulp_exp x + 53\<close> bits, and values below \<open>2^-1021\<close> all have the smallest spacing.
  \<open>round64\<close> is the rounding itself. Overflow to \<open>Infinity\<close> is not modelled: the
  only rounded operations of the component are the quotient of a number of frames
  below \<open>2^32\<close> by a sample rate and the sum of a finite double and such a quotient,
  and neither reaches the overflow threshold, which lies \<open>2^970\<close> above the largest
  double, \<open>max_double\<close>; see \<open>cursor_sum_finite\<close> below.
\<close>

definition rne :: "rat \<Rightarrow> int" where
  "rne r =
     (let f = \<lfloor>r\<rfloor>; d = r - of_int f
      in if d < 1 / 2 then f
         else if 1 / 2 < d then f + 1
         else if even f then f else f + 1)"

definition denorm :: rat where
  "denorm = 2 ^ 1074"

definition ulp_exp :: "rat \<Rightarrow> nat" where
  "ulp_exp x = nat (bitlen \<lfloor>x * denorm\<rfloor>) - 53"

definition round64_nonneg :: "rat \<Rightarrow> rat" where
  "round64_nonneg x =
     of_int (rne (x * denorm / 2 ^ ulp_exp x)) * 2 ^ ulp_exp x / denorm"

definition round64 :: "rat \<Rightarrow> rat" where
  "round64 x = (if x < 0 then - round64_nonneg (- x) else round64_nonneg x)"

definition is_double :: "rat \<Rightarrow> bool" where
  "is_double x = (round64 x = x)"

definition max_double :: rat where
  "max_double = (2 ^ 53 - 1) * 2 ^ 971"

subsection \<open>Audio buffers and \<open>decodeAudioData\<close>\<close>

text \<open>
  An audio context is characterised here by the nominal ranges within which its
  \<open>createBuffer\<close> accepts a channel count and a sample rate. \<open>createBuffer\<close> throws a
  \<open>NotSupportedError\<close> when an argument is zero or outside its nominal range; its
  length argument is an \<open>unsigned long\<close>, so a fractional frame count is truncated
  and reduced modulo \<open>2^32\<close>. The new buffer holds zeros.
\<close>

record AudioContext =
  maxChannels :: nat
  minRate :: rat
  maxRate :: rat

record AudioBuffer =
  numberOfChannels :: nat
  bufferLength :: nat
  bufferSampleRate :: rat
  channelData :: "number list list"

text \<open>\<open>buffer.duration\<close> is the quotient of length and sample rate, as a double.\<close>

definition duration :: "AudioBuffer \<Rightarrow> rat" where
  "duration b = round64 (of_nat (bufferLength b) / bufferSampleRate b)"

definition in_nominal_range :: "AudioContext \<Rightarrow> nat \<Rightarrow> rat \<Rightarrow> bool" where
  "in_nominal_range ctx numChannels sampleRate =
     (0 < numChannels \<and> numChannels \<le> maxChannels ctx \<and> 0 < sampleRate \<and>
      minRate ctx \<le> sampleRate \<and> sampleRate \<le> maxRate ctx)"

definition to_uint32 :: "rat \<Rightarrow> nat" where
  "to_uint32 r = nat (trunc_rat r mod 2 ^ 32)"

definition createBuffer :: "AudioContext \<Rightarrow> nat \<Rightarrow> rat \<Rightarrow> rat \<Rightarrow> error + AudioBuffer" where
  "createBuffer ctx numChannels frameCount sampleRate =
     (if \<not> in_nominal_range ctx numChannels sampleRate \<or> to_uint32 frameCount = 0
      then Inl NotSupportedError
      else Inr \<lparr>numberOfChannels = numChannels, bufferLength = to_uint32 frameCount,
                bufferSampleRate = sampleRate,
                channelData = replicate numChannels (replicate (to_uint32 frameCount) (Num 0))\<rparr>)"

text \<open>
  The inner loop of \<open>decodeAudioData\<close> runs while \<open>i < frameCount\<close>, where
  \<open>frameCount\<close> is the quotient of two numbers and need not be whole: the indices
  visited are those below its ceiling. For a channel count of zero the quotient is
  infinite or \<open>NaN\<close> in JavaScript, and \<open>createBuffer\<close> has thrown on the channel count
  before either loop is reached.
\<close>

definition fill_channel :: "i16 list \<Rightarrow> nat \<Rightarrow> rat \<Rightarrow> nat \<Rightarrow> number list \<Rightarrow> number list" where
  "fill_channel dataInt16 numChannels frameCount channel cd =
     fold (\<lambda>i acc. store acc i (div_32768 (int16_at dataInt16 (i * numChannels + channel))))
       [0 ..< nat \<lceil>frameCount\<rceil>] cd"

definition decodeAudioData :: "u8 list \<Rightarrow> AudioContext \<Rightarrow> rat \<Rightarrow> nat \<Rightarrow> error + AudioBuffer" where
  "decodeAudioData data ctx sampleRate numChannels =
     (case Int16Array_of_buffer data of
        Inl e \<Rightarrow> Inl e
      | Inr dataInt16 \<Rightarrow>
          (let frameCount = of_nat (length dataInt16) / of_nat numChannels
           in case createBuffer ctx numChannels frameCount sampleRate of
                Inl e \<Rightarrow> Inl e
              | Inr buffer \<Rightarrow>
                  Inr (buffer\<lparr>channelData :=
                         map (\<lambda>channel. fill_channel dataInt16 numChannels frameCount channel
                                          (channelData buffer ! channel))
                             [0 ..< numChannels]\<rparr>)))"

subsection \<open>The capture callback\<close>

text \<open>
  \<open>onaudioprocess\<close> writes \<open>input[i] * 32768\<close> into an \<open>Int16Array\<close>, views its buffer
  as bytes and sends \<open>encode\<close> of them; the value is the \<open>data\<close> field of the message
  passed to \<open>sendRealtimeInput\<close>.
\<close>

definition onaudioprocess :: "number list \<Rightarrow> error + jsstring" where
  "onaudioprocess input =
     encode (Uint8Array_of_int16s (map (\<lambda>v. to_int16 (times_32768 v)) input))"

section \<open>The live session\<close>

subsection \<open>State\<close>

text \<open>
  The component's state that the live session touches: the flag \<open>isLiveActive\<close> and
  the four refs. \<open>isLiveActive\<close> is the value last given to \<open>setIsLiveActive\<close>. The
  functions of the component are built anew by every render and see the flag as a
  constant of that render; \<open>rendered\<close> is the flag as the latest render saw it, the
  one whose handlers the button is bound to. The \<open>Set\<close> of source nodes is kept as
  the list of its members in insertion order (every node is a fresh object, so none
  is inserted twice). What the handlers do to objects outside the component is
  appended to \<open>effects\<close>.
\<close>

record AudioBufferSourceNode =
  buffer :: AudioBuffer
  startTime :: rat

record LiveRef =
  session :: nat
  stream :: nat
  inCtx :: nat

datatype effect =
    NewAudioContext rat
  | LiveConnect
  | GetUserMedia
  | SourceStart rat
  | TracksStop nat
  | ContextClose nat
  | ConsoleDebug
  | ConsoleError string

record app =
  isLiveActive :: bool
  rendered :: bool
  liveSessionRef :: "LiveRef option"
  audioContextRef :: "AudioContext option"
  nextStartTimeRef :: rat
  sourcesRef :: "AudioBufferSourceNode list"
  effects :: "effect list"

definition initial :: app where
  "initial = \<lparr>isLiveActive = False, rendered = False,
              liveSessionRef = None, audioContextRef = None,
              nextStartTimeRef = 0, sourcesRef = [], effects = []\<rparr>"

subsection \<open>Inbound messages\<close>

record Blob =
  blob_data :: "jsstring option"

record Part =
  inlineData :: "Blob option"

record Content =
  parts :: "Part list option"

record LiveServerContent =
  modelTurn :: "Content option"

record LiveServerMessage =
  serverContent :: "LiveServerContent option"

text \<open>
  \<open>msg.serverContent?.modelTurn?.parts[0]?.inlineData?.data\<close>: each \<open>?.\<close> yields
  \<open>undefined\<close> when what is to its left is missing; \<open>parts[0]\<close> has no such guard and
  throws a \<open>TypeError\<close> when \<open>parts\<close> is missing.
\<close>

definition audio_of :: "LiveServerMessage \<Rightarrow> error + jsstring option" where
  "audio_of msg =
     (case serverContent msg of
        None \<Rightarrow> Inr None
      | Some sc \<Rightarrow>
          (case modelTurn sc of
             None \<Rightarrow> Inr None
           | Some mt \<Rightarrow>
               (case parts mt of
                  None \<Rightarrow> Inl TypeError
                | Some ps \<Rightarrow>
                    (case ps of
                       [] \<Rightarrow> Inr None
                     | p # _ \<Rightarrow>
                         (case inlineData p of
                            None \<Rightarrow> Inr None
                          | Some b \<Rightarrow> Inr (blob_data b))))))"

datatype outcome = Threw error | Skipped | Scheduled AudioBufferSourceNode

text \<open>
  \<open>onmessage\<close>, run to completion for one message; \<open>now\<close> is the value of
  \<open>ctx.currentTime\<close> that the handler reads. A missing or empty string is falsy. The
  cursor is raised to \<open>now\<close> before the chunk is decoded, so an exception of \<open>decode\<close>
  or \<open>decodeAudioData\<close> leaves it raised. \<open>Math.max\<close> returns one of its arguments;
  the sum that advances the cursor is rounded.
\<close>

definition onmessage :: "app \<Rightarrow> LiveServerMessage \<Rightarrow> rat \<Rightarrow> app \<times> outcome" where
  "onmessage s msg now =
     (case audio_of msg of
        Inl e \<Rightarrow> (s, Threw e)
      | Inr None \<Rightarrow> (s, Skipped)
      | Inr (Some audioBase64) \<Rightarrow>
          (case audioContextRef s of
             None \<Rightarrow> (s, Skipped)
           | Some ctx \<Rightarrow>
               if audioBase64 = [] then (s, Skipped)
               else
                 (let s1 = s\<lparr>nextStartTimeRef := max (nextStartTimeRef s) now\<rparr>
                  in case decode audioBase64 of
                       Inl e \<Rightarrow> (s1, Threw e)
                     | Inr bytes \<Rightarrow>
                         (case decodeAudioData bytes ctx 24000 1 of
                            Inl e \<Rightarrow> (s1, Threw e)
                          | Inr buf \<Rightarrow>
                              (let source = \<lparr>buffer = buf, startTime = nextStartTimeRef s1\<rparr>
                               in (s1\<lparr>nextStartTimeRef :=
                                         round64 (nextStartTimeRef s1 + duration buf),
                                       sourcesRef := sourcesRef s1 @ [source],
                                       effects := effects s1 @ [SourceStart (nextStartTimeRef s1)]\<rparr>,
                                   Scheduled source))))))"

subsection \<open>Session callbacks, start and stop\<close>

definition onopen :: "app \<Rightarrow> app" where
  "onopen s = s\<lparr>isLiveActive := True, effects := effects s @ [ConsoleDebug]\<rparr>"

definition onclose :: "app \<Rightarrow> app" where
  "onclose s = s\<lparr>isLiveActive := False\<rparr>"

definition onerror :: "string \<Rightarrow> app \<Rightarrow> app" where
  "onerror e s = s\<lparr>effects := effects s @ [ConsoleError e]\<rparr>"

text \<open>
  \<open>startLiveComm\<close> is asynchronous. Its first part runs up to the call of
  \<open>ai.live.connect\<close>; the second resumes when the connection resolves to a session and
  asks for the microphone; the third resumes with the stream, builds the capture
  graph and sets \<open>liveSessionRef\<close>. \<open>outCtx\<close> is the object \<open>new AudioContext\<close> returns.
  The flag that the guard tests is the constant \<open>isLiveActive\<close> of the render that built
  the function, passed here as \<open>captured\<close>; it is not the current value of the state.
\<close>

definition startLiveComm :: "bool \<Rightarrow> AudioContext \<Rightarrow> app \<Rightarrow> app" where
  "startLiveComm captured outCtx s =
     (if captured then s
      else s\<lparr>audioContextRef := Some outCtx,
              effects := effects s @ [NewAudioContext 24000, LiveConnect]\<rparr>)"

definition startLiveComm_connected :: "app \<Rightarrow> app" where
  "startLiveComm_connected s = s\<lparr>effects := effects s @ [GetUserMedia]\<rparr>"

definition startLiveComm_streaming :: "nat \<Rightarrow> nat \<Rightarrow> nat \<Rightarrow> app \<Rightarrow> app" where
  "startLiveComm_streaming sess strm ictx s =
     s\<lparr>liveSessionRef := Some \<lparr>session = sess, stream = strm, inCtx = ictx\<rparr>,
        effects := effects s @ [NewAudioContext 16000]\<rparr>"

definition stopLiveComm :: "app \<Rightarrow> app" where
  "stopLiveComm s =
     (case liveSessionRef s of
        None \<Rightarrow> s\<lparr>isLiveActive := False\<rparr>
      | Some l \<Rightarrow>
          s\<lparr>isLiveActive := False,
             effects := effects s @ [TracksStop (stream l), ContextClose (inCtx l)]\<rparr>)"

text \<open>
  A render takes the current flag. The button of the live panel is bound by
  \<open>onClick={isLiveActive ? stopLiveComm : startLiveComm}\<close> to the functions of the
  latest render: a click stops when that render saw the flag set, and otherwise calls
  a \<open>startLiveComm\<close> that has captured the flag clear.
\<close>

definition render :: "app \<Rightarrow> app" where
  "render s = s\<lparr>rendered := isLiveActive s\<rparr>"

definition onClick :: "AudioContext \<Rightarrow> app \<Rightarrow> app" where
  "onClick outCtx s =
     (if rendered s then stopLiveComm s else startLiveComm (rendered s) outCtx s)"

subsection \<open>Runs\<close>

datatype event =
    Click AudioContext
  | Render
  | Connected
  | Streaming nat nat nat
  | OnOpen
  | OnMessage LiveServerMessage rat
  | OnClose
  | OnError string

fun step :: "app \<Rightarrow> event \<Rightarrow> app" where
  "step s (Click outCtx) = onClick outCtx s"
| "step s Render = render s"
| "step s Connected = startLiveComm_connected s"
| "step s (Streaming sess strm ictx) = startLiveComm_streaming sess strm ictx s"
| "step s OnOpen = onopen s"
| "step s (OnMessage msg now) = fst (onmessage s msg now)"
| "step s OnClose = onclose s"
| "step s (OnError e) = onerror e s"

definition run :: "app \<Rightarrow> event list \<Rightarrow> app" where
  "run s evs = foldl step s evs"



text \<open>
  The instant at which a source ends that starts at its start time and lasts for the
  duration of its buffer: the exact sum, which need not be a double.
\<close>

definition endTime :: "AudioBufferSourceNode \<Rightarrow> rat" where
  "endTime src = startTime src + duration (buffer src)"


definition overlap :: "AudioBufferSourceNode \<Rightarrow> AudioBufferSourceNode \<Rightarrow> bool" where
  "overlap a b = (startTime a < endTime b \<and> startTime b < endTime a)"

fun disjoint_sources :: "AudioBufferSourceNode list \<Rightarrow> bool" where
  "disjoint_sources [] = True"
| "disjoint_sources (x # xs) = (list_all (\<lambda>y. \<not> overlap x y) xs \<and> disjoint_sources xs)"

text \<open>
  Every source starts no earlier than the double nearest to the end of each source
  scheduled before it.
\<close>

fun ordered_sources :: "AudioBufferSourceNode list \<Rightarrow> bool" where
  "ordered_sources [] = True"
| "ordered_sources (x # xs) =
     (list_all (\<lambda>y. round64 (endTime x) \<le> startTime y) xs \<and> ordered_sources xs)"

text \<open>The clock reading of an inbound message is a double; other events carry no time.\<close>

fun clock_ok :: "event \<Rightarrow> bool" where
  "clock_ok (OnMessage msg now) = is_double now"
| "clock_ok ev = True"


subsection \<open>Example values\<close>

text \<open>
  A context with the nominal ranges every implementation must offer, a buffer of one
  frame, the message that carries a given payload as the inline data of its first
  part, a message without server content, a message whose model turn has no parts,
  and the state after a first click on the button.
\<close>

definition example_ctx :: AudioContext where
  "example_ctx = \<lparr>maxChannels = 32, minRate = 8000, maxRate = 96000\<rparr>"

definition audio_message :: "jsstring \<Rightarrow> LiveServerMessage" where
  "audio_message b =
     \<lparr>serverContent = Some \<lparr>modelTurn = Some
        \<lparr>parts = Some [\<lparr>inlineData = Some \<lparr>blob_data = Some b\<rparr>\<rparr>]\<rparr>\<rparr>\<rparr>"

definition example_buffer :: AudioBuffer where
  "example_buffer =
     \<lparr>numberOfChannels = 1, bufferLength = 1, bufferSampleRate = 24000,
        channelData = [[Num (1 / 2)]]\<rparr>"

definition empty_message :: LiveServerMessage where
  "empty_message = \<lparr>serverContent = None\<rparr>"

definition no_parts_message :: LiveServerMessage where
  "no_parts_message = \<lparr>serverContent = Some \<lparr>modelTurn = Some \<lparr>parts = None\<rparr>\<rparr>\<rparr>"

definition connecting :: app where
  "connecting = onClick example_ctx initial"

section \<open>Rounding to the nearest double\<close>

lemma rne_cases: "rne r = \<lfloor>r\<rfloor> \<or> rne r = \<lfloor>r\<rfloor> + 1"
  by (simp add: rne_def Let_def)

lemma rne_of_int [simp]: "rne (of_int n) = n"
  by (simp add: rne_def Let_def)

lemma rne_mono:
  assumes "r \<le> s"
  shows "rne r \<le> rne s"
proof (cases "\<lfloor>r\<rfloor> = \<lfloor>s\<rfloor>")
  case True
  have "r - of_int \<lfloor>r\<rfloor> \<le> s - of_int \<lfloor>r\<rfloor>" using assms by simp
  then show ?thesis unfolding rne_def Let_def True [symmetric]
    by (auto split: if_splits)
next
  case False
  with assms have "\<lfloor>r\<rfloor> < \<lfloor>s\<rfloor>" using floor_mono [OF assms] by linarith
  then have "\<lfloor>r\<rfloor> + 1 \<le> \<lfloor>s\<rfloor>" by simp
  moreover have "rne r \<le> \<lfloor>r\<rfloor> + 1" using rne_cases [of r] by linarith
  moreover have "\<lfloor>s\<rfloor> \<le> rne s" using rne_cases [of s] by linarith
  ultimately show ?thesis by linarith
qed

lemma rne_close: "\<bar>of_int (rne r) - r\<bar> \<le> 1 / 2"
proof -
  define d where "d = r - of_int \<lfloor>r\<rfloor>"
  have d: "0 \<le> d" "d < 1" unfolding d_def by linarith+
  have r: "r = of_int \<lfloor>r\<rfloor> + d" unfolding d_def by simp
  consider "d < 1 / 2" | "1 / 2 < d" | "d = 1 / 2" by linarith
  then show ?thesis
  proof cases
    case 1
    then have "rne r = \<lfloor>r\<rfloor>" by (simp add: rne_def Let_def d_def)
    then have "of_int (rne r) - r = - d" using r by simp
    with d 1 show ?thesis by simp
  next
    case 2
    then have "rne r = \<lfloor>r\<rfloor> + 1" by (simp add: rne_def Let_def d_def)
    then have "of_int (rne r) - r = 1 - d" using r by simp
    with d 2 show ?thesis by simp
  next
    case 3
    have "of_int (rne r) - r = - d \<or> of_int (rne r) - r = 1 - d"
      using rne_cases [of r] r by auto
    with 3 show ?thesis by auto
  qed
qed

lemma denorm_pos: "0 < denorm"
  by (simp add: denorm_def)

lemma bitlen_le_nat: "bitlen k \<le> int n \<longleftrightarrow> k < 2 ^ n"
  using bitlen_le_iff_power [of k "int n"] by simp

lemma bitlen_ge_nat: "int (Suc n) \<le> bitlen k \<longleftrightarrow> 2 ^ n \<le> k"
proof -
  have "nat (int (Suc n)) - 1 = n" by simp
  moreover have "\<not> int (Suc n) \<le> 0" by simp
  ultimately show ?thesis using bitlen_ge_iff_power [of "int (Suc n)" k] by metis
qed

lemma floor_less_pow2: "\<lfloor>r :: rat\<rfloor> < 2 ^ n \<longleftrightarrow> r < 2 ^ n"
proof -
  have "\<lfloor>r\<rfloor> < 2 ^ n \<longleftrightarrow> r < of_int (2 ^ n)" by (simp only: floor_less_iff)
  then show ?thesis by simp
qed

lemma pow2_le_floor: "2 ^ n \<le> \<lfloor>r :: rat\<rfloor> \<longleftrightarrow> 2 ^ n \<le> r"
proof -
  have "2 ^ n \<le> \<lfloor>r\<rfloor> \<longleftrightarrow> of_int (2 ^ n) \<le> r" by (simp only: le_floor_iff)
  then show ?thesis by simp
qed

lemma ulp_exp_upper: "x * denorm < 2 ^ (ulp_exp x + 53)"
proof -
  have "bitlen \<lfloor>x * denorm\<rfloor> \<le> int (ulp_exp x + 53)" unfolding ulp_exp_def by linarith
  then show ?thesis by (simp only: bitlen_le_nat floor_less_pow2)
qed

lemma ulp_exp_lower:
  assumes "0 < ulp_exp x"
  shows "2 ^ (ulp_exp x + 52) \<le> x * denorm"
proof -
  from assms have "int (Suc (ulp_exp x + 52)) \<le> bitlen \<lfloor>x * denorm\<rfloor>"
    unfolding ulp_exp_def by linarith
  then show ?thesis by (simp only: bitlen_ge_nat pow2_le_floor)
qed

lemma ulp_exp_mono:
  assumes "x \<le> y"
  shows "ulp_exp x \<le> ulp_exp y"
proof -
  have "x * denorm \<le> y * denorm" using assms denorm_pos by simp
  then have "\<lfloor>x * denorm\<rfloor> \<le> \<lfloor>y * denorm\<rfloor>" by (rule floor_mono)
  then have "bitlen \<lfloor>x * denorm\<rfloor> \<le> bitlen \<lfloor>y * denorm\<rfloor>"
    by (simp add: bitlen_def floorlog_mono)
  then show ?thesis unfolding ulp_exp_def by linarith
qed

lemma ulp_exp_eqI:
  assumes "2 ^ (m + 52) \<le> x * denorm" "x * denorm < 2 ^ (m + 53)"
  shows "ulp_exp x = m"
proof -
  from assms(2) have "bitlen \<lfloor>x * denorm\<rfloor> \<le> int (m + 53)"
    by (simp only: bitlen_le_nat floor_less_pow2)
  moreover from assms(1) have "int (Suc (m + 52)) \<le> bitlen \<lfloor>x * denorm\<rfloor>"
    by (simp only: bitlen_ge_nat pow2_le_floor)
  ultimately show ?thesis unfolding ulp_exp_def by linarith
qed

lemma round64_nonneg_mono:
  assumes "0 \<le> x" "x \<le> y"
  shows "round64_nonneg x \<le> round64_nonneg y"
proof (cases "ulp_exp x = ulp_exp y")
  case True
  have "x * denorm / 2 ^ ulp_exp y \<le> y * denorm / 2 ^ ulp_exp y"
    using assms(2) denorm_pos by (simp add: divide_right_mono)
  then have "rne (x * denorm / 2 ^ ulp_exp y) \<le> rne (y * denorm / 2 ^ ulp_exp y)"
    by (rule rne_mono)
  then have "(of_int (rne (x * denorm / 2 ^ ulp_exp y)) :: rat)
      \<le> of_int (rne (y * denorm / 2 ^ ulp_exp y))" by (simp only: of_int_le_iff)
  then show ?thesis unfolding round64_nonneg_def True using denorm_pos
    by (simp add: divide_right_mono mult_right_mono)
next
  case False
  with ulp_exp_mono [OF assms(2)] have lt: "ulp_exp x < ulp_exp y" by simp
  let ?a = "ulp_exp x" and ?b = "ulp_exp y"
  have "x * denorm / 2 ^ ?a \<le> 2 ^ 53"
    using ulp_exp_upper [of x] by (simp add: power_add divide_le_eq mult.commute)
  then have "rne (x * denorm / 2 ^ ?a) \<le> rne (of_int (2 ^ 53))"
    by (intro rne_mono) simp
  then have "rne (x * denorm / 2 ^ ?a) \<le> 2 ^ 53" by (simp only: rne_of_int)
  then have "(of_int (rne (x * denorm / 2 ^ ?a)) :: rat) \<le> of_int (2 ^ 53)"
    by (simp only: of_int_le_iff)
  then have "of_int (rne (x * denorm / 2 ^ ?a)) * 2 ^ ?a \<le> (2 ^ 53 * 2 ^ ?a :: rat)"
    by (simp add: mult_right_mono)
  also have "\<dots> = 2 ^ (?a + 53)" by (simp add: power_add)
  also have "\<dots> \<le> 2 ^ (?b + 52)" using lt by (intro power_increasing) simp_all
  finally have up: "of_int (rne (x * denorm / 2 ^ ?a)) * 2 ^ ?a \<le> (2 ^ (?b + 52) :: rat)" .
  have "0 < ?b" using lt by simp
  from ulp_exp_lower [OF this] have "2 ^ 52 \<le> y * denorm / 2 ^ ?b"
    by (simp add: power_add le_divide_eq mult.commute)
  then have "rne (of_int (2 ^ 52)) \<le> rne (y * denorm / 2 ^ ?b)"
    by (intro rne_mono) simp
  then have "2 ^ 52 \<le> rne (y * denorm / 2 ^ ?b)" by (simp only: rne_of_int)
  then have "(of_int (2 ^ 52) :: rat) \<le> of_int (rne (y * denorm / 2 ^ ?b))"
    by (simp only: of_int_le_iff)
  then have "(2 ^ 52 * 2 ^ ?b :: rat) \<le> of_int (rne (y * denorm / 2 ^ ?b)) * 2 ^ ?b"
    by (simp add: mult_right_mono)
  then have lo: "(2 ^ (?b + 52) :: rat) \<le> of_int (rne (y * denorm / 2 ^ ?b)) * 2 ^ ?b"
    by (simp add: power_add mult.commute)
  from up lo have "of_int (rne (x * denorm / 2 ^ ?a)) * 2 ^ ?a
      \<le> (of_int (rne (y * denorm / 2 ^ ?b)) * 2 ^ ?b :: rat)" by (rule order_trans)
  then show ?thesis unfolding round64_nonneg_def using denorm_pos
    by (simp add: divide_right_mono)
qed


lemma ulp_exp_0 [simp]: "ulp_exp 0 = 0"
  by (simp add: ulp_exp_def)

lemma rne_0 [simp]: "rne 0 = 0"
  using rne_of_int [of 0] by simp

lemma round64_nonneg_0 [simp]: "round64_nonneg 0 = 0"
  by (simp add: round64_nonneg_def)

lemma round64_nonneg_ge0: "0 \<le> x \<Longrightarrow> 0 \<le> round64_nonneg x"
  using round64_nonneg_mono [of 0 x] by simp

lemma round64_0 [simp]: "round64 0 = 0"
  by (simp add: round64_def)

lemma round64_mono:
  assumes "x \<le> y"
  shows "round64 x \<le> round64 y"
proof -
  consider "0 \<le> x" | "y < 0" | "x < 0" "0 \<le> y" by linarith
  then show ?thesis
  proof cases
    case 1
    with assms show ?thesis by (simp add: round64_def round64_nonneg_mono)
  next
    case 2
    with assms have "round64_nonneg (- y) \<le> round64_nonneg (- x)"
      by (intro round64_nonneg_mono) simp_all
    with 2 assms show ?thesis by (simp add: round64_def)
  next
    case 3
    then have "0 \<le> round64_nonneg (- x)" "0 \<le> round64_nonneg y"
      by (simp_all add: round64_nonneg_ge0)
    with 3 show ?thesis by (simp add: round64_def)
  qed
qed

lemma round64_nonneg_grid:
  assumes "2 ^ (m + 52) \<le> of_int n * (2 ^ m :: rat) \<or> m = 0" "0 \<le> n" "n < 2 ^ 53"
  shows "round64_nonneg (of_int n * 2 ^ m / denorm) = of_int n * 2 ^ m / denorm"
proof -
  let ?y = "of_int n * 2 ^ m / denorm :: rat"
  have yd: "?y * denorm = of_int n * 2 ^ m" using denorm_pos by simp
  have "(of_int n :: rat) < of_int (2 ^ 53)" using assms(3) by (simp only: of_int_less_iff)
  then have "(of_int n :: rat) * 2 ^ m < 2 ^ 53 * 2 ^ m" by simp
  then have hi: "?y * denorm < 2 ^ (m + 53)" unfolding yd by (simp add: power_add mult.commute)
  have k: "ulp_exp ?y = m"
  proof (cases "m = 0")
    case True
    from hi have "bitlen \<lfloor>?y * denorm\<rfloor> \<le> int (0 + 53)"
      unfolding True by (simp only: bitlen_le_nat floor_less_pow2)
    then show ?thesis unfolding ulp_exp_def True by linarith
  next
    case False
    with assms(1) have "2 ^ (m + 52) \<le> ?y * denorm" unfolding yd by simp
    then show ?thesis using hi by (rule ulp_exp_eqI)
  qed
  have "?y * denorm / 2 ^ m = of_int n" unfolding yd by simp
  then show ?thesis unfolding round64_nonneg_def k by (simp only: rne_of_int)
qed

lemma round64_nonneg_idem:
  assumes "0 \<le> x"
  shows "round64_nonneg (round64_nonneg x) = round64_nonneg x"
proof -
  let ?k = "ulp_exp x"
  let ?n = "rne (x * denorm / 2 ^ ?k)"
  have y: "round64_nonneg x = of_int ?n * 2 ^ ?k / denorm" by (simp add: round64_nonneg_def)
  have "0 \<le> x * denorm / 2 ^ ?k" using assms denorm_pos by simp
  then have "rne (of_int 0) \<le> ?n" by (intro rne_mono) simp
  then have n0: "0 \<le> ?n" by (simp only: rne_of_int)
  have "x * denorm / 2 ^ ?k \<le> 2 ^ 53"
    using ulp_exp_upper [of x] by (simp add: power_add divide_le_eq mult.commute)
  then have "?n \<le> rne (of_int (2 ^ 53))" by (intro rne_mono) simp
  then have n53: "?n \<le> 2 ^ 53" by (simp only: rne_of_int)
  have lo: "2 ^ (?k + 52) \<le> of_int ?n * (2 ^ ?k :: rat)" if "0 < ?k"
  proof -
    from ulp_exp_lower [OF that] have "2 ^ 52 \<le> x * denorm / 2 ^ ?k"
      by (simp add: power_add le_divide_eq mult.commute)
    then have "rne (of_int (2 ^ 52)) \<le> ?n" by (intro rne_mono) simp
    then have "2 ^ 52 \<le> ?n" by (simp only: rne_of_int)
    then have "(of_int (2 ^ 52) :: rat) \<le> of_int ?n" by (simp only: of_int_le_iff)
    then have "(2 ^ 52 * 2 ^ ?k :: rat) \<le> of_int ?n * 2 ^ ?k" by (simp add: mult_right_mono)
    then show ?thesis by (simp add: power_add mult.commute)
  qed
  show ?thesis
  proof (cases "?n = 2 ^ 53")
    case False
    with n53 have "?n < 2 ^ 53" by simp
    moreover have "2 ^ (?k + 52) \<le> of_int ?n * (2 ^ ?k :: rat) \<or> ?k = 0" using lo by blast
    ultimately show ?thesis unfolding y using n0 by (intro round64_nonneg_grid)
  next
    case True
    have e: "of_int ?n * 2 ^ ?k / denorm = of_int (2 ^ 52) * 2 ^ (Suc ?k) / denorm"
      unfolding True by simp
    have "round64_nonneg (of_int (2 ^ 52) * 2 ^ (Suc ?k) / denorm)
        = of_int (2 ^ 52) * 2 ^ (Suc ?k) / denorm"
      by (intro round64_nonneg_grid) (simp_all add: power_add mult.commute)
    then show ?thesis unfolding y e .
  qed
qed

lemma round64_idem: "round64 (round64 x) = round64 x"
proof (cases "x < 0")
  case False
  then have "0 \<le> round64_nonneg x" by (simp add: round64_nonneg_ge0)
  with False show ?thesis by (simp add: round64_def round64_nonneg_idem)
next
  case True
  then have p: "0 \<le> round64_nonneg (- x)" by (simp add: round64_nonneg_ge0)
  show ?thesis
  proof (cases "round64_nonneg (- x) = 0")
    case z: True
    with True show ?thesis by (simp add: round64_def)
  next
    case False
    with p have "- round64_nonneg (- x) < 0" by simp
    with True show ?thesis by (simp add: round64_def round64_nonneg_idem)
  qed
qed

lemma round64_eval:
  assumes "j \<le> 1074" "2 ^ 52 \<le> x * 2 ^ j" "x * 2 ^ j < 2 ^ 53"
  shows "round64 x = of_int (rne (x * 2 ^ j)) / 2 ^ j"
proof -
  define m where "m = 1074 - j"
  have d: "denorm = 2 ^ j * 2 ^ m" unfolding denorm_def m_def using assms(1)
    by (simp flip: power_add)
  have x: "0 \<le> x"
  proof (rule ccontr)
    assume "\<not> 0 \<le> x"
    then have "x * 2 ^ j < 0" by (simp add: mult_less_0_iff)
    with assms(2) show False by (smt (verit) zero_le_power zero_le_numeral order_trans not_less)
  qed
  have "2 ^ 52 * 2 ^ m \<le> x * 2 ^ j * 2 ^ m" using assms(2) by simp
  then have lo: "2 ^ (m + 52) \<le> x * denorm" unfolding d by (simp add: power_add mult.commute mult.assoc)
  have "x * 2 ^ j * 2 ^ m < 2 ^ 53 * 2 ^ m" using assms(3) by simp
  then have hi: "x * denorm < 2 ^ (m + 53)" unfolding d by (simp add: power_add mult.commute mult.assoc)
  have k: "ulp_exp x = m" using lo hi by (rule ulp_exp_eqI)
  have 1: "x * denorm / 2 ^ m = x * 2 ^ j" unfolding d by simp
  have 2: "of_int n * 2 ^ m / denorm = of_int n / (2 ^ j :: rat)" for n unfolding d by simp
  show ?thesis using x unfolding round64_def round64_nonneg_def k 1 2 by simp
qed

lemma round64_error:
  assumes "0 \<le> x"
  shows "\<bar>round64 x - x\<bar> \<le> x / 2 ^ 53 + 1 / (2 * denorm)"
proof -
  let ?k = "ulp_exp x"
  let ?r = "x * denorm / 2 ^ ?k"
  have "\<bar>of_int (rne ?r) - ?r\<bar> \<le> 1 / 2" by (rule rne_close)
  then have "\<bar>of_int (rne ?r) - ?r\<bar> * (2 ^ ?k / denorm) \<le> 1 / 2 * (2 ^ ?k / denorm)"
    using denorm_pos by (intro mult_right_mono) simp_all
  moreover have "\<bar>of_int (rne ?r) - ?r\<bar> * (2 ^ ?k / denorm) = \<bar>round64 x - x\<bar>"
  proof -
    have "(of_int (rne ?r) - ?r) * (2 ^ ?k / denorm) = round64 x - x"
      using assms denorm_pos by (simp add: round64_def round64_nonneg_def field_simps)
    moreover have "0 \<le> (2 ^ ?k / denorm :: rat)" using denorm_pos by simp
    ultimately show ?thesis by (metis abs_mult abs_of_nonneg)
  qed
  ultimately have e: "\<bar>round64 x - x\<bar> \<le> 2 ^ ?k / (2 * denorm)" by simp
  show ?thesis
  proof (cases "?k = 0")
    case True
    have "0 \<le> x / 2 ^ 53" using assms by simp
    with e show ?thesis unfolding True by simp
  next
    case False
    then have "2 ^ (?k + 52) \<le> x * denorm" by (intro ulp_exp_lower) simp
    then have "2 ^ ?k \<le> x * denorm / 2 ^ 52"
      by (simp add: power_add le_divide_eq mult.commute)
    then have "2 ^ ?k / (2 * denorm) \<le> x * denorm / 2 ^ 52 / (2 * denorm)"
      using denorm_pos by (intro divide_right_mono) simp_all
    also have "\<dots> = x / 2 ^ 53" using denorm_pos by simp
    finally have "2 ^ ?k / (2 * denorm) \<le> x / 2 ^ 53" .
    with e have "\<bar>round64 x - x\<bar> \<le> x / 2 ^ 53" by linarith
    then show ?thesis using denorm_pos by (simp add: add_increasing2)
  qed
qed

lemma rne_eqI:
  assumes "of_int n - 1 / 2 < r" "r < of_int n + 1 / 2"
  shows "rne r = n"
proof -
  have "\<bar>of_int (rne r) - r\<bar> \<le> 1 / 2" by (rule rne_close)
  with assms have "\<bar>(of_int (rne r) :: rat) - of_int n\<bar> < 1" by linarith
  then have "\<bar>(of_int (rne r - n) :: rat)\<bar> < of_int 1" by simp
  then have "\<bar>rne r - n\<bar> < 1" by (simp only: of_int_abs [symmetric] of_int_less_iff)
  then show ?thesis by linarith
qed

lemma rne_numeral [simp]: "rne (numeral k) = numeral k"
  using rne_of_int [of "numeral k"] by simp

lemma is_double_round64: "is_double (round64 x)"
  by (simp add: is_double_def round64_idem)

lemma is_double_0: "is_double 0"
  by (simp add: is_double_def)

lemma is_double_max: "is_double x \<Longrightarrow> is_double y \<Longrightarrow> is_double (max x y)"
  by (simp add: max_def)

lemma round64_ge_double:
  assumes "is_double t" "t \<le> x"
  shows "t \<le> round64 x"
  using round64_mono [OF assms(2)] assms(1) by (simp add: is_double_def)

lemma round64_nonneg': "0 \<le> x \<Longrightarrow> 0 \<le> round64 x"
  using round64_mono [of 0 x] by simp

lemma round64_eval_large:
  assumes "2 ^ 52 \<le> x / 2 ^ i" "x / 2 ^ i < 2 ^ 53"
  shows "round64 x = of_int (rne (x / 2 ^ i)) * 2 ^ i"
proof -
  define m where "m = 1074 + i"
  have p: "2 ^ m = denorm * (2 ^ i :: rat)" unfolding denorm_def m_def by (simp add: power_add)
  have x: "0 \<le> x"
  proof (rule ccontr)
    assume "\<not> 0 \<le> x"
    then have "x / 2 ^ i < 0" by (simp add: divide_less_0_iff)
    moreover have "(0 :: rat) \<le> 2 ^ 52" by simp
    ultimately show False using assms(1) by linarith
  qed
  have e: "x * denorm = x / 2 ^ i * 2 ^ m" unfolding p by simp
  have "2 ^ 52 * 2 ^ m \<le> x / 2 ^ i * 2 ^ m" using assms(1) by (intro mult_right_mono) simp_all
  then have lo: "2 ^ (m + 52) \<le> x * denorm" unfolding e by (simp add: power_add mult.commute)
  have "x / 2 ^ i * 2 ^ m < 2 ^ 53 * 2 ^ m"
    using assms(2) by (intro mult_strict_right_mono) simp_all
  then have hi: "x * denorm < 2 ^ (m + 53)" unfolding e by (simp add: power_add mult.commute)
  have k: "ulp_exp x = m" using lo hi by (rule ulp_exp_eqI)
  have 1: "x * denorm / 2 ^ m = x / 2 ^ i" unfolding e by simp
  have 2: "of_int n * 2 ^ m / denorm = of_int n * (2 ^ i :: rat)" for n
    unfolding p using denorm_pos by simp
  show ?thesis using x unfolding round64_def round64_nonneg_def k 1 2 by simp
qed

text \<open>
  Adding a duration of fewer than \<open>2^32\<close> frames at 24 kHz to a double that is at most
  \<open>max_double\<close> rounds to at most \<open>max_double\<close>: the addition that advances the cursor
  never overflows.
\<close>

lemma round64_below_overflow: "round64 (max_double + 2 ^ 32 / 24000) = max_double"
proof -
  have "rne ((max_double + 2 ^ 32 / 24000) / 2 ^ 971) = 2 ^ 53 - 1"
    unfolding max_double_def by (rule rne_eqI) simp_all
  then show ?thesis
    using round64_eval_large [of "max_double + 2 ^ 32 / 24000" 971]
    by (simp add: max_double_def)
qed

lemma cursor_sum_finite:
  assumes "t \<le> max_double" "d \<le> 2 ^ 32 / 24000"
  shows "round64 (t + d) \<le> max_double"
proof -
  have "t + d \<le> max_double + 2 ^ 32 / 24000" using assms by (rule add_mono)
  then have "round64 (t + d) \<le> round64 (max_double + 2 ^ 32 / 24000)" by (rule round64_mono)
  then show ?thesis by (simp only: round64_below_overflow)
qed

section \<open>Base64: decoding what \<open>btoa\<close> emits\<close>

lemma unat_b64_char: "n < 64 \<Longrightarrow> unat (b64_char n) =
     (if n < 26 then 65 + n else if n < 52 then 71 + n else if n < 62 then n - 4 else if n = 62 then 43 else 47)"
  unfolding b64_char_def by (simp add: unat_of_nat del: of_nat_add of_nat_diff)

lemma sextet_of_b64_char: "n < 64 \<Longrightarrow> sextet_of (b64_char n) = Some n"
  unfolding sextet_of_def Let_def by (simp only: unat_b64_char) (auto split: if_splits)

lemma b64_char_not_ws: "n < 64 \<Longrightarrow> \<not> is_ascii_whitespace (b64_char n)"
proof -
  assume n: "n < 64"
  have "unat (b64_char n) \<ge> 43" using n by (simp only: unat_b64_char) (auto split: if_splits)
  moreover have "is_ascii_whitespace u \<Longrightarrow> unat u \<le> 32" for u
    by (auto simp: is_ascii_whitespace_def)
  ultimately show ?thesis by fastforce
qed

lemma b64_char_not_pad: "n < 64 \<Longrightarrow> b64_char n \<noteq> b64_pad"
proof -
  assume n: "n < 64"
  have "unat (b64_char n) \<noteq> 61" using n by (simp only: unat_b64_char) (auto split: if_splits)
  then show ?thesis by (auto simp: b64_pad_def)
qed

lemma pad_not_ws: "\<not> is_ascii_whitespace b64_pad"
  by (simp add: is_ascii_whitespace_def b64_pad_def)

lemma top_sextet_bound:
  assumes "a < 256" "b < 256" "c < 256"
  shows "(a * 65536 + b * 256 + c) div 262144 < (64::nat)"
proof -
  have "a * 65536 + b * 256 + c < 64 * 262144" using assms by simp
  then show ?thesis by (rule less_mult_imp_div_less)
qed

lemma sextets_bound: "list_all (\<lambda>x. x < 256) os \<Longrightarrow> list_all (\<lambda>s. s < 64) (sextets os)"
proof (induction os rule: sextets.induct)
  case (2 a)
  then show ?case using top_sextet_bound [of a 0 0] by (simp add: Let_def)
next
  case (3 a b)
  then show ?case using top_sextet_bound [of a b 0] by (simp add: Let_def)
next
  case (4 a b c rest)
  then show ?case using top_sextet_bound [of a b c] by (simp add: Let_def)
qed simp

lemma btoa_units_no_ws:
  "list_all (\<lambda>x. x < 256) os \<Longrightarrow> filter (\<lambda>u. \<not> is_ascii_whitespace u) (btoa_units os) = btoa_units os"
proof (induction os rule: btoa_units.induct)
  case (2 a)
  then show ?case using top_sextet_bound [of a 0 0] by (simp add: Let_def b64_char_not_ws pad_not_ws)
next
  case (3 a b)
  then show ?case using top_sextet_bound [of a b 0] by (simp add: Let_def b64_char_not_ws pad_not_ws)
next
  case (4 a b c rest)
  then show ?case using top_sextet_bound [of a b c] by (simp add: Let_def b64_char_not_ws pad_not_ws)
qed simp

lemma length_btoa_units: "length (btoa_units os) mod 4 = 0"
  by (induction os rule: btoa_units.induct) (simp_all add: Let_def)

lemma btoa_units_Nil_iff: "btoa_units os = [] \<longleftrightarrow> os = []"
  by (induction os rule: btoa_units.induct) (simp_all add: Let_def)

lemma length_sextets: "length (sextets os) mod 4 \<noteq> 1"
  by (induction os rule: sextets.induct) (simp_all add: Let_def)

lemma strip_padding_Cons4:
  assumes "ys \<noteq> []" "length ys mod 4 = 0"
  shows "strip_padding (x1 # x2 # x3 # x4 # ys) = x1 # x2 # x3 # x4 # strip_padding ys"
proof -
  from assms have "0 < length ys" by simp
  with assms have len: "length ys \<ge> 4" by arith
  then have b: "butlast ys \<noteq> []" by (cases ys rule: rev_cases) auto
  have m: "length (x1 # x2 # x3 # x4 # ys) mod 4 = 0" using assms by simp
  show ?thesis using assms b m
    by (simp add: strip_padding_def)
qed

lemma strip_padding_btoa_units:
  "list_all (\<lambda>x. x < 256) os \<Longrightarrow> strip_padding (btoa_units os) = map b64_char (sextets os)"
proof (induction os rule: btoa_units.induct)
  case 1
  then show ?case by (simp add: strip_padding_def)
next
  case (2 a)
  then show ?case using top_sextet_bound [of a 0 0]
    by (simp add: Let_def strip_padding_def)
next
  case (3 a b)
  then show ?case using top_sextet_bound [of a b 0]
    by (simp add: Let_def strip_padding_def b64_char_not_pad)
next
  case (4 a b c rest)
  show ?case
  proof (cases "rest = []")
    case True
    then show ?thesis by (simp add: Let_def strip_padding_def b64_char_not_pad)
  next
    case False
    then have ne: "btoa_units rest \<noteq> []" by (simp add: btoa_units_Nil_iff)
    from 4 have "strip_padding (btoa_units rest) = map b64_char (sextets rest)" by simp
    then show ?thesis
      using strip_padding_Cons4 [OF ne length_btoa_units] by (simp add: Let_def)
  qed
qed

lemma those_sextet_of:
  "list_all (\<lambda>s. s < 64) ss \<Longrightarrow> those (map sextet_of (map b64_char ss)) = Some ss"
  by (induction ss) (simp_all add: sextet_of_b64_char)

lemma div_mod_base: "x < k \<Longrightarrow> (q * k + x) div k = q \<and> (q * k + x) mod k = (x::nat)"
  by simp

lemma sextet_pair: "n div 262144 * 64 + n div 4096 mod 64 = n div (4096::nat)"
proof -
  have "n div 4096 div 64 = n div 262144" by (simp add: div_mult2_eq [symmetric])
  then show ?thesis using div_mult_mod_eq [of "n div 4096" 64] by simp
qed

lemma sextet_triple:
  "n div 262144 * 4096 + n div 4096 mod 64 * 64 + n div 64 mod 64 = n div (64::nat)"
proof -
  have "n div 64 div 64 = n div 4096" by (simp add: div_mult2_eq [symmetric])
  then have "n div 64 = n div 4096 * 64 + n div 64 mod 64"
    using div_mult_mod_eq [of "n div 64" 64] by simp
  then show ?thesis using sextet_pair [of n, symmetric] by (simp add: algebra_simps)
qed

lemma sextet_quad:
  "n div 262144 * 262144 + n div 4096 mod 64 * 4096 + n div 64 mod 64 * 64 + n mod 64 = (n::nat)"
proof -
  have "(n div 262144 * 4096 + n div 4096 mod 64 * 64 + n div 64 mod 64) * 64 + n mod 64 = n"
    by (simp only: sextet_triple) simp
  then show ?thesis by (simp add: algebra_simps)
qed

lemma shift12: "(a * 65536) div 4096 = a * (16::nat)"
  by simp

lemma shift6: "(a * 65536 + b * 256) div 64 = a * 1024 + b * (4::nat)"
proof -
  have "a * 65536 + b * 256 = (a * 1024 + b * 4) * 64" by simp
  then show ?thesis by (metis nonzero_mult_div_cancel_right zero_neq_numeral)
qed

lemma shift2: "(a * 1024 + b * 4) div 4 = a * 256 + (b::nat)"
proof -
  have "a * 1024 + b * 4 = (a * 256 + b) * 4" by simp
  then show ?thesis by (metis nonzero_mult_div_cancel_right zero_neq_numeral)
qed

lemma split3:
  assumes "b < 256" "c < 256"
  shows "(a * 65536 + b * 256 + c) div 65536 = a"
    and "(a * 65536 + b * 256 + c) div 256 mod 256 = b"
    and "(a * 65536 + b * 256 + c) mod 256 = (c::nat)"
proof -
  have e: "a * 65536 + b * 256 + c = (a * 256 + b) * 256 + c" by simp
  have d: "(a * 65536 + b * 256 + c) div 256 = a * 256 + b"
    by (metis e div_mod_base assms(2))
  show "(a * 65536 + b * 256 + c) mod 256 = c" by (metis e div_mod_base assms(2))
  show "(a * 65536 + b * 256 + c) div 256 mod 256 = b" by (metis d div_mod_base assms(1))
  have "(a * 65536 + b * 256 + c) div 65536 = (a * 65536 + b * 256 + c) div 256 div 256"
    by (simp add: div_mult2_eq [symmetric])
  then show "(a * 65536 + b * 256 + c) div 65536 = a" by (metis d div_mod_base assms(1))
qed

lemma atob_groups_sextets:
  "list_all (\<lambda>x. x < 256) os \<Longrightarrow> atob_groups (sextets os) = os"
proof (induction os rule: sextets.induct)
  case 1
  then show ?case by simp
next
  case (2 a)
  have "a * 65536 div 262144 * 64 + a * 65536 div 4096 mod 64 = a * 65536 div 4096"
    by (rule sextet_pair)
  also have "\<dots> = a * 16" by (rule shift12)
  finally have "(a * 65536 div 262144 * 64 + a * 65536 div 4096 mod 64) div 16 = a"
    by (simp del: mult_numeral_left_semiring_numeral)
  then show ?case by (simp add: Let_def)
next
  case (3 a b)
  then have b: "b < 256" by simp
  have "(a * 65536 + b * 256) div 262144 * 4096 + (a * 65536 + b * 256) div 4096 mod 64 * 64
          + (a * 65536 + b * 256) div 64 mod 64 = (a * 65536 + b * 256) div 64"
    by (rule sextet_triple)
  also have "\<dots> = a * 1024 + b * 4" by (rule shift6)
  finally have "((a * 65536 + b * 256) div 262144 * 4096
          + (a * 65536 + b * 256) div 4096 mod 64 * 64
          + (a * 65536 + b * 256) div 64 mod 64) div 4 = a * 256 + b"
    by (simp only: shift2)
  moreover have "(a * 256 + b) div 256 = a" "(a * 256 + b) mod 256 = b"
    using div_mod_base [OF b, of a] by simp_all
  ultimately show ?case by (simp add: Let_def)
next
  case (4 a b c rest)
  then have bc: "b < 256" "c < 256" and r: "atob_groups (sextets rest) = rest" by simp_all
  show ?case
    by (simp only: sextets.simps atob_groups.simps Let_def append_Cons append_Nil
        sextet_quad split3 [OF bc] r)
qed

lemma atob_btoa_units:
  assumes "list_all (\<lambda>x. x < 256) os"
  shows "atob (btoa_units os) = Inr (map word_of_nat os)"
proof -
  let ?d = "map b64_char (sextets os)"
  have d: "strip_padding (filter (\<lambda>u. \<not> is_ascii_whitespace u) (btoa_units os)) = ?d"
    using assms by (simp only: btoa_units_no_ws strip_padding_btoa_units)
  have l: "length ?d mod 4 \<noteq> 1" using length_sextets [of os] by simp
  have t: "those (map sextet_of ?d) = Some (sextets os)"
    by (rule those_sextet_of [OF sextets_bound [OF assms]])
  show ?thesis
    unfolding atob_def d Let_def using l
    by (simp only: t atob_groups_sextets [OF assms] if_False option.case)
qed

lemma unat_ucast_u8: "unat (ucast (b :: u8) :: 16 word) = unat b"
proof -
  have "unat b < 2 ^ 8" using unsigned_less [of b, where 'a = nat] by simp
  then have "unat b < 2 ^ 16" by simp
  then show ?thesis by (simp add: unsigned_ucast_eq take_bit_nat_eq_self)
qed

lemma unat_u8_less: "unat (b :: u8) < 256"
  using unsigned_less [of b, where 'a = nat] by simp

lemma btoa_bytes: "btoa (map ucast (bytes :: u8 list)) = Inr (btoa_units (map unat bytes))"
proof -
  have "\<not> list_ex (\<lambda>u. 255 < unat u) (map ucast bytes :: 16 word list)"
  proof (induction bytes)
    case (Cons b bs)
    with unat_u8_less [of b] show ?case by (simp add: unat_ucast_u8)
  qed simp
  then show ?thesis by (simp add: btoa_def unat_ucast_u8 comp_def)
qed

lemma octets_small: "list_all (\<lambda>x. x < 256) (map unat (bytes :: u8 list))"
  by (induction bytes) (simp_all add: unat_u8_less)

lemma ucast_down_up_u8: "ucast (ucast (x :: u8) :: 16 word) = x"
  by (rule ucast_up_ucast_id) (simp add: is_up)

lemma decode_encode_aux: "encode b = Inr (btoa_units (map unat b)) \<and> decode (btoa_units (map unat b)) = Inr b"
proof -
  have "map (\<lambda>x. ucast (word_of_nat (unat x) :: 16 word)) b = b"
    by (induction b) (simp_all add: ucast_down_up_u8)
  then show ?thesis
    by (simp add: encode_def decode_def btoa_bytes atob_btoa_units [OF octets_small] comp_def)
qed

section \<open>The inbound decoder\<close>

lemma length_store: "length (store xs i v) = length xs"
  by (simp add: store_def)

lemma nth_store: "k < length xs \<Longrightarrow> store xs i v ! k = (if k = i then v else xs ! k)"
  by (simp add: store_def)

lemma length_fold_store:
  "length (fold (\<lambda>i acc. store acc i (g i)) is cd) = length cd"
  by (induction "is" arbitrary: cd) (simp_all add: length_store)

lemma nth_fold_store:
  "k < length cd \<Longrightarrow>
   fold (\<lambda>i acc. store acc i (g i)) [0 ..< n] cd ! k = (if k < n then g k else cd ! k)"
proof (induction n)
  case 0
  then show ?case by simp
next
  case (Suc n)
  then show ?case
    by (simp add: nth_store length_fold_store less_Suc_eq)
qed

lemma length_fill_channel: "length (fill_channel d nc fc ch cd) = length cd"
  by (simp add: fill_channel_def length_fold_store)

lemma nth_fill_channel:
  "k < length cd \<Longrightarrow> k < nat \<lceil>fc\<rceil> \<Longrightarrow>
   fill_channel d nc fc ch cd ! k = div_32768 (int16_at d (k * nc + ch))"
  by (simp add: fill_channel_def nth_fold_store)

lemma trunc_rat_quotient: "trunc_rat (of_nat n / of_nat nc) = int (n div nc)"
  by (simp add: trunc_rat_def floor_divide_of_nat_eq)

lemma to_uint32_quotient: "to_uint32 (of_nat n / of_nat nc) = (n div nc) mod 2 ^ 32"
proof -
  have "int (n div nc) mod 2 ^ 32 = int ((n div nc) mod 2 ^ 32)"
    by (simp add: zmod_int)
  then show ?thesis by (simp add: to_uint32_def trunc_rat_quotient)
qed

lemma to_uint32_le_ceiling: "to_uint32 (of_nat n / of_nat nc) \<le> nat \<lceil>(of_nat n / of_nat nc :: rat)\<rceil>"
proof -
  have "(n div nc) mod 2 ^ 32 \<le> n div nc" by simp
  moreover have "int (n div nc) \<le> \<lceil>(of_nat n / of_nat nc :: rat)\<rceil>"
    using floor_le_ceiling [of "of_nat n / of_nat nc :: rat"]
    by (simp add: floor_divide_of_nat_eq)
  ultimately show ?thesis unfolding to_uint32_quotient by linarith
qed

lemma frame_index_in_range:
  assumes "i < (n div nc) mod 2 ^ 32" "ch < nc"
  shows "i * nc + ch < (n::nat)"
proof -
  have "i < n div nc" using assms(1) by (meson less_le_trans mod_less_eq_dividend)
  then have "Suc i * nc \<le> n div nc * nc" by (simp add: Suc_leI mult_le_mono1 del: mult_Suc)
  also have "\<dots> \<le> n" by simp
  finally show ?thesis using assms(2) by simp
qed

lemma decodeAudioData_Inr:
  assumes "decodeAudioData data ctx sampleRate numChannels = Inr buf"
  shows "length data mod 2 = 0"
    and "in_nominal_range ctx numChannels sampleRate"
    and "numberOfChannels buf = numChannels"
    and "bufferSampleRate buf = sampleRate"
    and "bufferLength buf = (length (int16_pairs data) div numChannels) mod 2 ^ 32"
    and "bufferLength buf \<noteq> 0"
    and "channelData buf =
           map (\<lambda>channel. fill_channel (int16_pairs data) numChannels
                  (of_nat (length (int16_pairs data)) / of_nat numChannels) channel
                  (replicate (bufferLength buf) (Num 0)))
               [0 ..< numChannels]"
  using assms
  by (auto simp: decodeAudioData_def Int16Array_of_buffer_def createBuffer_def Let_def
      to_uint32_quotient split: if_splits cong: map_cong)

lemma sint16_bounds: "- 32768 \<le> sint (w :: i16)" "sint (w :: i16) < 32768"
  using sint_ge [of w] sint_lt [of w] by simp_all

lemma div_32768_int16_at:
  assumes "j < length d"
  shows "\<exists>y. div_32768 (int16_at d j) = Num y \<and> - 1 \<le> y \<and> y < 1"
proof -
  let ?k = "sint (d ! j)"
  have "- 32768 \<le> ?k" "?k < 32768" by (rule sint16_bounds)+
  then have "(of_int (- 32768) :: rat) \<le> of_int ?k" "(of_int ?k :: rat) < of_int 32768"
    by (simp_all only: of_int_le_iff of_int_less_iff)
  then have "- 1 \<le> (of_int ?k :: rat) / 32768" "(of_int ?k :: rat) / 32768 < 1"
    by (simp_all add: le_divide_eq divide_less_eq)
  moreover have "div_32768 (int16_at d j) = Num (of_int ?k / 32768)"
    using assms by (simp add: int16_at_def)
  ultimately show ?thesis by blast
qed

lemma decoded_sample:
  assumes dec: "decodeAudioData data ctx sampleRate numChannels = Inr buf"
    and ch: "ch < numChannels" and i: "i < bufferLength buf"
  shows "length (channelData buf ! ch) = bufferLength buf"
    and "channelData buf ! ch ! i = div_32768 (int16_at (int16_pairs data) (i * numChannels + ch))"
    and "i * numChannels + ch < length (int16_pairs data)"
proof -
  let ?d = "int16_pairs data"
  let ?fc = "of_nat (length ?d) / of_nat numChannels :: rat"
  note f = decodeAudioData_Inr [OF dec]
  have c: "channelData buf ! ch = fill_channel ?d numChannels ?fc ch (replicate (bufferLength buf) (Num 0))"
    using ch by (simp add: f(7))
  show "length (channelData buf ! ch) = bufferLength buf"
    by (simp add: c length_fill_channel)
  have "bufferLength buf \<le> nat \<lceil>?fc\<rceil>"
    using to_uint32_le_ceiling [of "length ?d" numChannels] by (simp add: f(5) to_uint32_quotient)
  with i have "i < nat \<lceil>?fc\<rceil>" by simp
  then show "channelData buf ! ch ! i = div_32768 (int16_at ?d (i * numChannels + ch))"
    using i by (simp add: c nth_fill_channel)
  show "i * numChannels + ch < length ?d"
    using i ch by (simp add: f(5) frame_index_in_range)
qed

lemma samples_in_range:
  assumes "decodeAudioData data ctx sampleRate numChannels = Inr buf"
    and "ch < length (channelData buf)" and "i < length (channelData buf ! ch)"
  shows "\<exists>y. channelData buf ! ch ! i = Num y \<and> - 1 \<le> y \<and> y < 1"
proof -
  note f = decodeAudioData_Inr [OF assms(1)]
  from assms(2) have ch: "ch < numChannels" by (simp add: f(7))
  have "length (channelData buf ! ch) = bufferLength buf"
    using ch by (simp add: f(7) length_fill_channel)
  with assms(3) have i: "i < bufferLength buf" by simp
  show ?thesis
    using decoded_sample(2,3) [OF assms(1) ch i] div_32768_int16_at by simp
qed

subsection \<open>Success of the decoder\<close>

lemma length_int16_pairs: "length (int16_pairs bs) = length bs div 2"
  by (induction bs rule: int16_pairs.induct) simp_all

lemma decodeAudioData_odd:
  "length data mod 2 = 1 \<Longrightarrow> decodeAudioData data ctx sampleRate numChannels = Inl RangeError"
  by (simp add: decodeAudioData_def Int16Array_of_buffer_def)

lemma decodeAudioData_success:
  assumes "length data mod 2 = 0" and "in_nominal_range ctx numChannels sampleRate"
    and "(length (int16_pairs data) div numChannels) mod 2 ^ 32 \<noteq> 0"
  shows "\<exists>buf. decodeAudioData data ctx sampleRate numChannels = Inr buf"
proof -
  let ?fc = "of_nat (length (int16_pairs data)) / of_nat numChannels :: rat"
  have i: "Int16Array_of_buffer data = Inr (int16_pairs data)"
    using assms(1) by (simp add: Int16Array_of_buffer_def)
  have "to_uint32 ?fc \<noteq> 0" using assms(3) unfolding to_uint32_quotient .
  then have "\<exists>b. createBuffer ctx numChannels ?fc sampleRate = Inr b"
    using assms(2) by (simp add: createBuffer_def)
  then obtain b where c: "createBuffer ctx numChannels ?fc sampleRate = Inr b" ..
  show ?thesis by (simp add: decodeAudioData_def i c Let_def)
qed

lemma decodeAudioData_frames:
  assumes ev: "length data mod 2 = 0" and nom: "in_nominal_range ctx numChannels sampleRate"
    and pos: "0 < length data div (2 * numChannels)"
    and small: "length data div (2 * numChannels) < 2 ^ 32"
  obtains buf where "decodeAudioData data ctx sampleRate numChannels = Inr buf"
    and "bufferLength buf = length data div (2 * numChannels)"
    and "numberOfChannels buf = numChannels"
    and "length (channelData buf) = numChannels"
    and "\<And>ch. ch < numChannels \<Longrightarrow> length (channelData buf ! ch) = bufferLength buf"
    and "\<And>ch i. ch < numChannels \<Longrightarrow> i < bufferLength buf \<Longrightarrow>
           channelData buf ! ch ! i =
             div_32768 (int16_at (int16_pairs data) (i * numChannels + ch))"
proof -
  have q: "length (int16_pairs data) div numChannels = length data div (2 * numChannels)"
    unfolding length_int16_pairs by (rule div_mult2_eq [symmetric])
  have m: "(length (int16_pairs data) div numChannels) mod 2 ^ 32 = length data div (2 * numChannels)"
    unfolding q using small by (rule mod_less)
  have "(length (int16_pairs data) div numChannels) mod 2 ^ 32 \<noteq> 0"
    unfolding m using pos by simp
  from decodeAudioData_success [OF ev nom this]
  obtain buf where dec: "decodeAudioData data ctx sampleRate numChannels = Inr buf" ..
  note f = decodeAudioData_Inr [OF dec]
  have 1: "bufferLength buf = length data div (2 * numChannels)" unfolding f(5) by (rule m)
  have 2: "length (channelData buf) = numChannels" by (simp add: f(7))
  have 3: "length (channelData buf ! ch) = bufferLength buf" if "ch < numChannels" for ch
    using that by (simp add: f(7) length_fill_channel)
  have 4: "channelData buf ! ch ! i =
             div_32768 (int16_at (int16_pairs data) (i * numChannels + ch))"
    if "ch < numChannels" "i < bufferLength buf" for ch i
    by (rule decoded_sample(2) [OF dec that])
  from dec 1 f(3) 2 3 4 show thesis by (rule that)
qed

subsection \<open>The outbound encoder\<close>

lemma unat_i16_less: "unat (w :: i16) < 65536"
  using unsigned_less [of w, where 'a = nat] by simp

lemma int16_pairs_bytes: "int16_pairs (bytes_of_int16 w @ rest) = w # int16_pairs rest"
proof -
  have lo: "unat (word_of_nat (unat w mod 256) :: u8) = unat w mod 256"
    by (simp add: unat_of_nat)
  have "unat w div 256 < 256" using unat_i16_less [of w] by simp
  then have hi: "unat (word_of_nat (unat w div 256) :: u8) = unat w div 256"
    by (simp add: unat_of_nat)
  have "unat w mod 256 + 256 * (unat w div 256) = unat w" by simp
  then have "(word_of_nat (unat w mod 256 + 256 * (unat w div 256)) :: i16) = w"
    by (simp only: of_nat_unat) simp
  then show ?thesis by (simp only: bytes_of_int16_def append_Cons append_Nil int16_pairs.simps lo hi)
qed

lemma int16_pairs_Uint8Array: "int16_pairs (Uint8Array_of_int16s ws) = ws"
  by (induction ws) (simp_all add: Uint8Array_of_int16s_def int16_pairs_bytes)

lemma length_Uint8Array: "length (Uint8Array_of_int16s ws) = 2 * length ws"
  by (induction ws) (simp_all add: Uint8Array_of_int16s_def bytes_of_int16_def)

lemma trunc_rat_close: "\<bar>of_int (trunc_rat r) - r\<bar> < 1"
proof (cases "0 \<le> r")
  case True
  have "of_int \<lfloor>r\<rfloor> \<le> r" "r < of_int \<lfloor>r\<rfloor> + 1" by linarith+
  then have "\<bar>of_int \<lfloor>r\<rfloor> - r\<bar> < 1" by linarith
  then show ?thesis using True by (simp only: trunc_rat_def if_True)
next
  case False
  have "r \<le> of_int \<lceil>r\<rceil>" "of_int \<lceil>r\<rceil> < r + 1" by linarith+
  then have "\<bar>of_int \<lceil>r\<rceil> - r\<bar> < 1" by linarith
  then show ?thesis using False by (simp only: trunc_rat_def if_False)
qed

lemma trunc_rat_bounds:
  assumes "- 32768 \<le> r" "r < 32768"
  shows "- 32768 \<le> trunc_rat r" "trunc_rat r < 32768"
proof -
  show "- 32768 \<le> trunc_rat r"
  proof (cases "0 \<le> r")
    case True
    then have "0 \<le> \<lfloor>r\<rfloor>" by simp
    then show ?thesis using True by (simp add: trunc_rat_def)
  next
    case False
    have "- 32768 \<le> \<lceil>r\<rceil>" using assms(1) by linarith
    then show ?thesis using False by (simp add: trunc_rat_def)
  qed
  show "trunc_rat r < 32768"
  proof (cases "0 \<le> r")
    case True
    have "\<lfloor>r\<rfloor> < 32768" using assms(2) by linarith
    then show ?thesis using True by (simp add: trunc_rat_def)
  next
    case False
    then have "\<lceil>r\<rceil> \<le> 0" by (simp add: ceiling_le_iff)
    then show ?thesis using False by (simp add: trunc_rat_def)
  qed
qed

lemma sint_word_of_int16:
  assumes "- 32768 \<le> k" "k < 32768"
  shows "sint (word_of_int k :: i16) = k"
proof -
  have "signed_take_bit 15 k = k"
    using assms by (simp add: signed_take_bit_int_eq_self)
  then show ?thesis by (simp add: sint_sbintrunc')
qed

lemma times_div_sample:
  assumes "- 1 \<le> x" "x < 1"
  shows "\<exists>y. div_32768 (int16_at [to_int16 (times_32768 (Num x))] 0) = Num y \<and>
           \<bar>y - x\<bar> < 1 / 32768"
proof -
  let ?t = "trunc_rat (x * 32768)"
  have r: "- 32768 \<le> x * 32768" "x * 32768 < 32768" using assms by simp_all
  have s: "sint (word_of_int ?t :: i16) = ?t"
    by (rule sint_word_of_int16 [OF trunc_rat_bounds [OF r]])
  have "\<bar>of_int ?t - x * 32768\<bar> < 1" by (rule trunc_rat_close)
  then have "\<bar>(of_int ?t - x * 32768) / 32768\<bar> < 1 / 32768"
    by (simp only: abs_divide) (simp add: divide_strict_right_mono)
  then have c: "\<bar>of_int ?t / 32768 - x\<bar> < 1 / 32768" by (simp add: diff_divide_distrib)
  have "div_32768 (int16_at [to_int16 (times_32768 (Num x))] 0) = Num (of_int ?t / 32768)"
    unfolding int16_at_def times_32768.simps to_int16.simps using s by simp
  with c show ?thesis by blast
qed

section \<open>Evaluations at concrete inputs\<close>

text \<open>
  The base64 text \<open>AEA=\<close> holds the two bytes \<open>00 40\<close>, one 16-bit sample of
  value \<open>16384\<close>, that is one frame of amplitude one half.
\<close>

lemma js_AEA: "js ''AEA='' = [65, 69, 65, 61]"
  by (simp add: js_def)

lemma sextet_of_65: "sextet_of 65 = Some 0" and sextet_of_69: "sextet_of 69 = Some 4"
  by (simp_all add: sextet_of_def)

lemma atob_AEA: "atob [65, 69, 65, 61] = Inr [0, 64]"
  by (simp add: atob_def strip_padding_def is_ascii_whitespace_def b64_pad_def
      sextet_of_65 sextet_of_69)

lemma decode_AEA: "decode [65, 69, 65, 61] = Inr [0, 64]"
  by (simp add: decode_def atob_AEA)

lemma Int16Array_00_40: "Int16Array_of_buffer [0, 64] = Inr [16384]"
  by (simp add: Int16Array_of_buffer_def)

lemma createBuffer_one_frame:
  "createBuffer example_ctx 1 1 24000 =
     Inr \<lparr>numberOfChannels = 1, bufferLength = 1, bufferSampleRate = 24000,
           channelData = [[Num 0]]\<rparr>"
  by (simp add: createBuffer_def in_nominal_range_def to_uint32_def trunc_rat_def
      example_ctx_def)

lemma fill_channel_one_frame: "fill_channel [16384] 1 1 0 [Num 0] = [Num (1 / 2)]"
  by (simp add: fill_channel_def store_def int16_at_def)

lemma decodeAudioData_00_40:
  "decodeAudioData [0, 64] example_ctx 24000 1 =
     Inr \<lparr>numberOfChannels = 1, bufferLength = 1, bufferSampleRate = 24000,
           channelData = [[Num (1 / 2)]]\<rparr>"
  using createBuffer_one_frame fill_channel_one_frame
  by (simp add: decodeAudioData_def Int16Array_00_40)

lemma rne_one_frame: "rne (1 / 24000 * 2 ^ 67) = 6148914691236517"
  by (rule rne_eqI) simp_all

lemma round64_one_frame: "round64 (1 / 24000) = 6148914691236517 / 2 ^ 67"
  using round64_eval [of 67 "1 / 24000"] rne_one_frame by simp

lemma duration_example_buffer: "duration example_buffer = 6148914691236517 / 2 ^ 67"
  using round64_one_frame by (simp add: duration_def example_buffer_def)

lemma onmessage_AEA:
  assumes "audioContextRef s = Some example_ctx"
  shows "onmessage s (audio_message [65, 69, 65, 61]) now =
     (s\<lparr>nextStartTimeRef :=
          round64 (max (nextStartTimeRef s) now + duration example_buffer),
        sourcesRef := sourcesRef s @
          [\<lparr>buffer = example_buffer, startTime = max (nextStartTimeRef s) now\<rparr>],
        effects := effects s @ [SourceStart (max (nextStartTimeRef s) now)]\<rparr>,
      Scheduled \<lparr>buffer = example_buffer, startTime = max (nextStartTimeRef s) now\<rparr>)"
  using assms decodeAudioData_00_40
  by (simp add: onmessage_def audio_of_def audio_message_def decode_AEA Let_def
      example_buffer_def)


lemma round64_after_10:
  "round64 (10 + 6148914691236517 / 2 ^ 67) = 5629522990461179 / 562949953421312"
proof -
  have "rne ((10 + 6148914691236517 / 2 ^ 67) * 2 ^ 49) = 5629522990461179"
    by (rule rne_eqI) simp_all
  then show ?thesis using round64_eval [of 49 "10 + 6148914691236517 / 2 ^ 67"] by simp
qed

lemma round64_after_100:
  "round64 (100 + 6148914691236517 / 2 ^ 67) = 7036877349797407 / 70368744177664"
proof -
  have "rne ((100 + 6148914691236517 / 2 ^ 67) * 2 ^ 46) = 7036877349797407"
    by (rule rne_eqI) simp_all
  then show ?thesis using round64_eval [of 46 "100 + 6148914691236517 / 2 ^ 67"] by simp
qed

lemma is_double_small: "is_double 1" "is_double 10" "is_double 100"
  using round64_eval [of 52 1] round64_eval [of 49 10] round64_eval [of 46 100]
  by (simp_all add: is_double_def)


lemma connecting_state:
  "audioContextRef connecting = Some example_ctx" "nextStartTimeRef connecting = 0"
  "sourcesRef connecting = []" "\<not> isLiveActive connecting" "\<not> rendered connecting"
  "liveSessionRef connecting = None"
  "effects connecting = [NewAudioContext 24000, LiveConnect]"
  by (simp_all add: connecting_def onClick_def startLiveComm_def initial_def)


lemma length_six: "length [a, b, c, d, e, f] = 6"
  by simp

section \<open>The playback scheduler\<close>

subsection \<open>One invocation of the scheduler\<close>

lemma duration_decoded:
  assumes "decodeAudioData data ctx 24000 numChannels = Inr buf"
  shows "0 \<le> duration buf"
  using decodeAudioData_Inr(4) [OF assms] by (simp add: duration_def round64_nonneg')

lemma onmessage_cases:
  obtains (skip) "onmessage s msg now = (s, Skipped)"
  | (early) e where "onmessage s msg now = (s, Threw e)"
  | (late) e where
      "onmessage s msg now = (s\<lparr>nextStartTimeRef := max (nextStartTimeRef s) now\<rparr>, Threw e)"
  | (sched) ctx audioBase64 bytes buf where
      "audio_of msg = Inr (Some audioBase64)" "audioBase64 \<noteq> []"
      "audioContextRef s = Some ctx" "decode audioBase64 = Inr bytes"
      "decodeAudioData bytes ctx 24000 1 = Inr buf"
      "onmessage s msg now =
         (s\<lparr>nextStartTimeRef := round64 (max (nextStartTimeRef s) now + duration buf),
            sourcesRef := sourcesRef s @ [\<lparr>buffer = buf, startTime = max (nextStartTimeRef s) now\<rparr>],
            effects := effects s @ [SourceStart (max (nextStartTimeRef s) now)]\<rparr>,
          Scheduled \<lparr>buffer = buf, startTime = max (nextStartTimeRef s) now\<rparr>)"
proof (cases "audio_of msg")
  case (Inl e)
  then have "onmessage s msg now = (s, Threw e)" by (simp add: onmessage_def)
  then show ?thesis by (rule early)
next
  case (Inr a)
  show ?thesis
  proof (cases a)
    case None
    with Inr have "onmessage s msg now = (s, Skipped)" by (simp add: onmessage_def)
    then show ?thesis by (rule skip)
  next
    case (Some audioBase64)
    note a = Inr [unfolded Some]
    show ?thesis
    proof (cases "audioContextRef s")
      case None
      with a have "onmessage s msg now = (s, Skipped)" by (simp add: onmessage_def)
      then show ?thesis by (rule skip)
    next
      case ctx: (Some ctx)
      show ?thesis
      proof (cases "audioBase64 = []")
        case True
        with a ctx have "onmessage s msg now = (s, Skipped)" by (simp add: onmessage_def)
        then show ?thesis by (rule skip)
      next
        case ne: False
        show ?thesis
        proof (cases "decode audioBase64")
          case (Inl e)
          with a ctx ne have "onmessage s msg now =
              (s\<lparr>nextStartTimeRef := max (nextStartTimeRef s) now\<rparr>, Threw e)"
            by (simp add: onmessage_def)
          then show ?thesis by (rule late)
        next
          case bytes: (Inr bytes)
          show ?thesis
          proof (cases "decodeAudioData bytes ctx 24000 1")
            case (Inl e)
            with a ctx ne bytes have "onmessage s msg now =
                (s\<lparr>nextStartTimeRef := max (nextStartTimeRef s) now\<rparr>, Threw e)"
              by (simp add: onmessage_def)
            then show ?thesis by (rule late)
          next
            case buf: (Inr buf)
            with a ctx ne bytes have "onmessage s msg now =
               (s\<lparr>nextStartTimeRef := round64 (max (nextStartTimeRef s) now + duration buf),
                  sourcesRef := sourcesRef s @ [\<lparr>buffer = buf, startTime = max (nextStartTimeRef s) now\<rparr>],
                  effects := effects s @ [SourceStart (max (nextStartTimeRef s) now)]\<rparr>,
                Scheduled \<lparr>buffer = buf, startTime = max (nextStartTimeRef s) now\<rparr>)"
              by (simp add: onmessage_def Let_def)
            with a ne ctx bytes buf show ?thesis by (rule sched)
          qed
        qed
      qed
    qed
  qed
qed


lemma onmessage_cursor_mono:
  assumes "is_double (nextStartTimeRef s)" "is_double now"
  shows "nextStartTimeRef s \<le> nextStartTimeRef (fst (onmessage s msg now))"
proof (cases rule: onmessage_cases [of s msg now])
  case (sched ctx audioBase64 bytes buf)
  let ?t = "max (nextStartTimeRef s) now"
  have "is_double ?t" using assms by (rule is_double_max)
  moreover have "?t \<le> ?t + duration buf" using duration_decoded [OF sched(5)] by simp
  ultimately have "?t \<le> round64 (?t + duration buf)" by (rule round64_ge_double)
  then show ?thesis by (simp add: sched(6))
qed simp_all

lemma onmessage_cursor_double:
  assumes "is_double (nextStartTimeRef s)" "is_double now"
  shows "is_double (nextStartTimeRef (fst (onmessage s msg now)))"
proof (cases rule: onmessage_cases [of s msg now])
  case (late e)
  then show ?thesis using is_double_max [OF assms] by simp
next
  case (sched ctx audioBase64 bytes buf)
  then show ?thesis by (simp add: is_double_round64)
qed (use assms in simp_all)


subsection \<open>Sequences of invocations\<close>





subsection \<open>The scheduling invariant\<close>

lemma ordered_sources_snoc:
  "ordered_sources (xs @ [y]) \<longleftrightarrow>
     ordered_sources xs \<and> list_all (\<lambda>x. round64 (endTime x) \<le> startTime y) xs"
  by (induction xs) auto

lemma onmessage_invariant:
  assumes inv: "list_all (\<lambda>x. round64 (endTime x) \<le> nextStartTimeRef s) (sourcesRef s)"
    and ord: "ordered_sources (sourcesRef s)"
    and c: "is_double (nextStartTimeRef s)" and n: "is_double now"
  shows "list_all (\<lambda>x. round64 (endTime x) \<le> nextStartTimeRef (fst (onmessage s msg now)))
           (sourcesRef (fst (onmessage s msg now))) \<and>
         ordered_sources (sourcesRef (fst (onmessage s msg now)))"
proof (cases rule: onmessage_cases [of s msg now])
  case skip
  with inv ord show ?thesis by simp
next
  case (early e)
  with inv ord show ?thesis by simp
next
  case (late e)
  have "\<forall>x \<in> set (sourcesRef s). round64 (endTime x) \<le> max (nextStartTimeRef s) now"
    using inv by (auto simp: list_all_iff)
  with ord show ?thesis by (simp add: late list_all_iff)
next
  case (sched ctx audioBase64 bytes buf)
  let ?t = "max (nextStartTimeRef s) now"
  let ?src = "\<lparr>buffer = buf, startTime = ?t\<rparr>"
  have old: "\<forall>x \<in> set (sourcesRef s). round64 (endTime x) \<le> nextStartTimeRef s"
    using inv by (simp add: list_all_iff)
  have m: "nextStartTimeRef s \<le> round64 (?t + duration buf)"
    using onmessage_cursor_mono [OF c n, of msg] by (simp add: sched(6))
  have 1: "\<forall>x \<in> set (sourcesRef s). round64 (endTime x) \<le> round64 (?t + duration buf)"
  proof
    fix x assume "x \<in> set (sourcesRef s)"
    with old have "round64 (endTime x) \<le> nextStartTimeRef s" by blast
    then show "round64 (endTime x) \<le> round64 (?t + duration buf)" using m by (rule order_trans)
  qed
  have 2: "\<forall>x \<in> set (sourcesRef s). round64 (endTime x) \<le> startTime ?src"
  proof
    fix x assume "x \<in> set (sourcesRef s)"
    with old have "round64 (endTime x) \<le> nextStartTimeRef s" by blast
    then show "round64 (endTime x) \<le> startTime ?src" by simp
  qed
  have 3: "round64 (endTime ?src) \<le> round64 (?t + duration buf)" by (simp add: endTime_def)
  from 1 2 3 ord show ?thesis
    by (simp add: sched(6) ordered_sources_snoc list_all_iff)
qed

lemma step_frame:
  assumes "\<And>msg now. ev \<noteq> OnMessage msg now"
  shows "nextStartTimeRef (step s ev) = nextStartTimeRef s"
    and "sourcesRef (step s ev) = sourcesRef s"
proof -
  have "nextStartTimeRef (step s ev) = nextStartTimeRef s \<and>
        sourcesRef (step s ev) = sourcesRef s"
    using assms
    by (cases ev) (auto simp: onClick_def render_def startLiveComm_def
        startLiveComm_connected_def startLiveComm_streaming_def onopen_def onclose_def
        onerror_def stopLiveComm_def split: option.splits)
  then show "nextStartTimeRef (step s ev) = nextStartTimeRef s"
    and "sourcesRef (step s ev) = sourcesRef s" by simp_all
qed

lemma step_invariant:
  assumes "list_all (\<lambda>x. round64 (endTime x) \<le> nextStartTimeRef s) (sourcesRef s)"
    and "ordered_sources (sourcesRef s)"
    and "is_double (nextStartTimeRef s)" and "clock_ok ev"
  shows "list_all (\<lambda>x. round64 (endTime x) \<le> nextStartTimeRef (step s ev))
           (sourcesRef (step s ev)) \<and>
         ordered_sources (sourcesRef (step s ev))"
proof (cases "\<exists>msg now. ev = OnMessage msg now")
  case True
  then obtain msg now where ev: "ev = OnMessage msg now" by blast
  with assms(4) have "is_double now" by simp
  from onmessage_invariant [OF assms(1-3) this, of msg] show ?thesis by (simp add: ev)
next
  case False
  then have "\<And>msg now. ev \<noteq> OnMessage msg now" by blast
  from step_frame [OF this] assms show ?thesis by simp
qed

lemma step_cursor_mono:
  assumes "is_double (nextStartTimeRef s)" "clock_ok ev"
  shows "nextStartTimeRef s \<le> nextStartTimeRef (step s ev)"
    and "is_double (nextStartTimeRef (step s ev))"
proof -
  have "nextStartTimeRef s \<le> nextStartTimeRef (step s ev) \<and>
        is_double (nextStartTimeRef (step s ev))"
  proof (cases "\<exists>msg now. ev = OnMessage msg now")
    case True
    then obtain msg now where ev: "ev = OnMessage msg now" by blast
    with assms(2) have n: "is_double now" by simp
    from onmessage_cursor_mono [OF assms(1) n, of msg]
      onmessage_cursor_double [OF assms(1) n, of msg]
    show ?thesis by (simp add: ev)
  next
    case False
    then have "\<And>msg now. ev \<noteq> OnMessage msg now" by blast
    from step_frame(1) [OF this] assms(1) show ?thesis by simp
  qed
  then show "nextStartTimeRef s \<le> nextStartTimeRef (step s ev)"
    and "is_double (nextStartTimeRef (step s ev))" by simp_all
qed

lemma run_cursor_mono:
  assumes "is_double (nextStartTimeRef s)" "list_all clock_ok evs"
  shows "nextStartTimeRef s \<le> nextStartTimeRef (run s evs)"
  using assms
proof (induction evs arbitrary: s)
  case Nil
  then show ?case by (simp add: run_def)
next
  case (Cons ev evs)
  from Cons.prems(2) have ev: "clock_ok ev" and evs: "list_all clock_ok evs" by simp_all
  have "nextStartTimeRef s \<le> nextStartTimeRef (step s ev)"
    by (rule step_cursor_mono(1) [OF Cons.prems(1) ev])
  also have "\<dots> \<le> nextStartTimeRef (run (step s ev) evs)"
    by (rule Cons.IH [OF step_cursor_mono(2) [OF Cons.prems(1) ev] evs])
  finally show ?case by (simp add: run_def)
qed

lemma run_invariant:
  assumes "list_all (\<lambda>x. round64 (endTime x) \<le> nextStartTimeRef s) (sourcesRef s)"
    and "ordered_sources (sourcesRef s)"
    and "is_double (nextStartTimeRef s)" and "list_all clock_ok evs"
  shows "list_all (\<lambda>x. round64 (endTime x) \<le> nextStartTimeRef (run s evs))
           (sourcesRef (run s evs)) \<and>
         ordered_sources (sourcesRef (run s evs))"
  using assms
proof (induction evs arbitrary: s)
  case Nil
  then show ?case by (simp add: run_def)
next
  case (Cons ev evs)
  from Cons.prems(4) have ev: "clock_ok ev" and evs: "list_all clock_ok evs" by simp_all
  from step_invariant [OF Cons.prems(1-3) ev]
  have a: "list_all (\<lambda>x. round64 (endTime x) \<le> nextStartTimeRef (step s ev))
             (sourcesRef (step s ev))"
    and b: "ordered_sources (sourcesRef (step s ev))" by simp_all
  have "list_all (\<lambda>x. round64 (endTime x) \<le> nextStartTimeRef (run (step s ev) evs))
          (sourcesRef (run (step s ev) evs)) \<and>
        ordered_sources (sourcesRef (run (step s ev) evs))"
    by (rule Cons.IH [OF a b step_cursor_mono(2) [OF Cons.prems(3) ev] evs])
  then show ?case by (simp add: run_def)
qed

lemma run_initial_ordered:
  assumes "list_all clock_ok evs"
  shows "ordered_sources (sourcesRef (run initial evs))"
proof -
  have "list_all (\<lambda>x. round64 (endTime x) \<le> nextStartTimeRef initial) (sourcesRef initial)"
    and "ordered_sources (sourcesRef initial)" and "is_double (nextStartTimeRef initial)"
    by (simp_all add: initial_def is_double_0)
  from run_invariant [OF this assms] show ?thesis by simp
qed

lemma stopLiveComm_frame:
  "sourcesRef (stopLiveComm s) = sourcesRef s"
  "nextStartTimeRef (stopLiveComm s) = nextStartTimeRef s"
  "audioContextRef (stopLiveComm s) = audioContextRef s"
  by (simp_all add: stopLiveComm_def split: option.splits)

subsection \<open>What the session handlers leave alone\<close>

lemma render_fields:
  "isLiveActive (render s) = isLiveActive s" "rendered (render s) = isLiveActive s"
  "liveSessionRef (render s) = liveSessionRef s" "audioContextRef (render s) = audioContextRef s"
  "nextStartTimeRef (render s) = nextStartTimeRef s" "sourcesRef (render s) = sourcesRef s"
  "effects (render s) = effects s"
  by (simp_all add: render_def)

lemma onopen_fields:
  "isLiveActive (onopen s)" "rendered (onopen s) = rendered s"
  "liveSessionRef (onopen s) = liveSessionRef s" "audioContextRef (onopen s) = audioContextRef s"
  "nextStartTimeRef (onopen s) = nextStartTimeRef s" "sourcesRef (onopen s) = sourcesRef s"
  "effects (onopen s) = effects s @ [ConsoleDebug]"
  by (simp_all add: onopen_def)

lemma onClick_fields:
  "nextStartTimeRef (onClick outCtx s) = nextStartTimeRef s"
  "sourcesRef (onClick outCtx s) = sourcesRef s"
  "rendered (onClick outCtx s) = rendered s"
  "liveSessionRef (onClick outCtx s) = liveSessionRef s"
  "audioContextRef (onClick outCtx s) = (if rendered s then audioContextRef s else Some outCtx)"
  "isLiveActive (onClick outCtx s) = (if rendered s then False else isLiveActive s)"
  by (simp_all add: onClick_def startLiveComm_def stopLiveComm_def split: option.splits)

lemma onClick_effects:
  "effects (onClick outCtx s) =
     effects s @
       (if rendered s
        then (case liveSessionRef s of
                None \<Rightarrow> []
              | Some l \<Rightarrow> [TracksStop (stream l), ContextClose (inCtx l)])
        else [NewAudioContext 24000, LiveConnect])"
  by (simp add: onClick_def startLiveComm_def stopLiveComm_def split: option.splits)

lemma onmessage_fields:
  "rendered (fst (onmessage s msg now)) = rendered s"
  "isLiveActive (fst (onmessage s msg now)) = isLiveActive s"
  "liveSessionRef (fst (onmessage s msg now)) = liveSessionRef s"
  "audioContextRef (fst (onmessage s msg now)) = audioContextRef s"
  by (cases rule: onmessage_cases [of s msg now]; simp)+

section \<open>Properties of the codec helpers\<close>

text \<open>
  C8. For every byte array \<open>b\<close>, \<open>encode\<close> succeeds and \<open>decode\<close> of its result
  succeeds and gives back \<open>b\<close>: the same length and the same byte at every index.
\<close>

theorem decode_encode_identity: "\<exists>t. encode b = Inr t \<and> decode t = Inr b"
  using decode_encode_aux [of b] by blast

text \<open>
  C9. Every sample of every channel of a buffer that \<open>decodeAudioData\<close> returns is a
  finite number in the half-open interval from \<open>-1\<close> to \<open>1\<close>.
\<close>

theorem decoded_samples_in_unit_interval:
  assumes "decodeAudioData data ctx sampleRate numChannels = Inr buf"
    and "ch < length (channelData buf)" and "i < length (channelData buf ! ch)"
  shows "\<exists>y. channelData buf ! ch ! i = Num y \<and> - 1 \<le> y \<and> y < 1"
  using assms by (rule samples_in_range)

theorem decoded_samples_in_unit_interval_witness:
  "\<exists>y. [[Num (1 / 2)]] ! 0 ! 0 = Num y \<and> - 1 \<le> y \<and> y < 1"
  using decoded_samples_in_unit_interval [OF decodeAudioData_00_40, of 0 0] by simp

text \<open>
  C3. A block of samples is encoded by the capture callback and the payload is decoded
  by \<open>decode\<close> and \<open>decodeAudioData\<close> with one channel. For a context that accepts one
  channel at the given rate and a block of fewer than \<open>2^32\<close> samples, both steps
  succeed, the buffer has as many frames as the block has samples, and every sample of
  the block that lies in the interval from \<open>-1\<close> up to but excluding \<open>1\<close> comes back
  within \<open>1/32768\<close> of its value. Nothing is said of samples outside that interval.
\<close>

theorem pcm_round_trip:
  assumes nom: "in_nominal_range ctx 1 sampleRate" and len: "length input < 2 ^ 32"
    and i: "i < length input" and x: "input ! i = Num x" and lo: "- 1 \<le> x" and hi: "x < 1"
  shows "\<exists>payload bytes buf y.
           onaudioprocess input = Inr payload \<and> decode payload = Inr bytes \<and>
           decodeAudioData bytes ctx sampleRate 1 = Inr buf \<and>
           bufferLength buf = length input \<and>
           channelData buf ! 0 ! i = Num y \<and> \<bar>y - x\<bar> < 1 / 32768"
proof -
  let ?ws = "map (\<lambda>v. to_int16 (times_32768 v)) input"
  let ?bytes = "Uint8Array_of_int16s ?ws"
  have enc: "onaudioprocess input = Inr (btoa_units (map unat ?bytes))"
    unfolding onaudioprocess_def using decode_encode_aux [of ?bytes] by (rule conjunct1)
  have dec: "decode (btoa_units (map unat ?bytes)) = Inr ?bytes"
    using decode_encode_aux [of ?bytes] by (rule conjunct2)
  have l: "length ?bytes = 2 * length input" by (simp add: length_Uint8Array)
  have ev: "length ?bytes mod 2 = 0" unfolding l by simp
  have d: "length ?bytes div (2 * 1) = length input" unfolding l by simp
  have pos: "0 < length ?bytes div (2 * 1)" unfolding d using i by (cases input) simp_all
  have small: "length ?bytes div (2 * 1) < 2 ^ 32" unfolding d by (rule len)
  from times_div_sample [OF lo hi] obtain y
    where y: "div_32768 (int16_at [to_int16 (times_32768 (Num x))] 0) = Num y"
      and e: "\<bar>y - x\<bar> < 1 / 32768" by blast
  have w: "int16_at ?ws i = int16_at [to_int16 (times_32768 (Num x))] 0"
    using i x by (simp add: int16_at_def)
  show ?thesis
  proof (rule decodeAudioData_frames [OF ev nom pos small])
    fix buf
    assume b: "decodeAudioData ?bytes ctx sampleRate 1 = Inr buf"
      and bl: "bufferLength buf = length ?bytes div (2 * 1)"
      and smp: "\<And>ch i. ch < 1 \<Longrightarrow> i < bufferLength buf \<Longrightarrow>
           channelData buf ! ch ! i = div_32768 (int16_at (int16_pairs ?bytes) (i * 1 + ch))"
    have bl': "bufferLength buf = length input" unfolding bl by (rule d)
    have "channelData buf ! 0 ! i = div_32768 (int16_at (int16_pairs ?bytes) (i * 1 + 0))"
      using i bl' by (intro smp) simp_all
    also have "\<dots> = div_32768 (int16_at ?ws i)" by (simp add: int16_pairs_Uint8Array)
    also have "\<dots> = Num y" unfolding w by (rule y)
    finally have c: "channelData buf ! 0 ! i = Num y" .
    from enc dec b bl' c e show ?thesis by (intro exI conjI)
  qed
qed

theorem pcm_round_trip_witness:
  "\<exists>payload bytes buf y.
     onaudioprocess [Num (1 / 2)] = Inr payload \<and> decode payload = Inr bytes \<and>
     decodeAudioData bytes example_ctx 24000 1 = Inr buf \<and>
     bufferLength buf = length [Num (1 / 2)] \<and>
     channelData buf ! 0 ! 0 = Num y \<and> \<bar>y - 1 / 2\<bar> < 1 / 32768"
proof -
  have 1: "in_nominal_range example_ctx 1 24000"
    by (simp add: in_nominal_range_def example_ctx_def)
  have 2: "length [Num (1 / 2)] < 2 ^ 32" by simp
  have 3: "0 < length [Num (1 / 2)]" by simp
  have 4: "[Num (1 / 2)] ! 0 = Num (1 / 2)" by simp
  have 5: "- 1 \<le> (1 / 2 :: rat)" and 6: "(1 / 2 :: rat) < 1" by simp_all
  show ?thesis by (rule pcm_round_trip [OF 1 2 3 4 5 6])
qed

text \<open>
  C4, as amended. A byte block of odd length makes \<open>decodeAudioData\<close> throw a
  \<open>RangeError\<close>, whatever the channel count. For a byte block of even length, a
  channel count and sample rate within the nominal ranges of the context, and at
  least one and fewer than \<open>2^32\<close> complete frames, \<open>decodeAudioData\<close> succeeds:
  the buffer has \<open>byteLength div (2 * numChannels)\<close> frames, whether or not the
  length is a multiple of \<open>2 * numChannels\<close>, each channel holds the samples of the
  complete frames, and the bytes of a trailing partial frame are dropped.
\<close>

theorem decodeAudioData_truncation:
  "(length data mod 2 = 1 \<longrightarrow>
      decodeAudioData data ctx sampleRate numChannels = Inl RangeError) \<and>
   (length data mod 2 = 0 \<and> in_nominal_range ctx numChannels sampleRate \<and>
    0 < length data div (2 * numChannels) \<and> length data div (2 * numChannels) < 2 ^ 32 \<longrightarrow>
      (\<exists>buf. decodeAudioData data ctx sampleRate numChannels = Inr buf \<and>
           bufferLength buf = length data div (2 * numChannels) \<and>
           numberOfChannels buf = numChannels \<and>
           length (channelData buf) = numChannels \<and>
           (\<forall>ch < numChannels. length (channelData buf ! ch) = bufferLength buf \<and>
              (\<forall>i < bufferLength buf. channelData buf ! ch ! i =
                 div_32768 (int16_at (int16_pairs data) (i * numChannels + ch))))))"
proof (intro conjI impI)
  assume "length data mod 2 = 1"
  then show "decodeAudioData data ctx sampleRate numChannels = Inl RangeError"
    by (rule decodeAudioData_odd)
next
  assume a: "length data mod 2 = 0 \<and> in_nominal_range ctx numChannels sampleRate \<and>
    0 < length data div (2 * numChannels) \<and> length data div (2 * numChannels) < 2 ^ 32"
  then have ev: "length data mod 2 = 0" and nom: "in_nominal_range ctx numChannels sampleRate"
    and pos: "0 < length data div (2 * numChannels)"
    and small: "length data div (2 * numChannels) < 2 ^ 32" by blast+
  show "\<exists>buf. decodeAudioData data ctx sampleRate numChannels = Inr buf \<and>
           bufferLength buf = length data div (2 * numChannels) \<and>
           numberOfChannels buf = numChannels \<and>
           length (channelData buf) = numChannels \<and>
           (\<forall>ch < numChannels. length (channelData buf ! ch) = bufferLength buf \<and>
              (\<forall>i < bufferLength buf. channelData buf ! ch ! i =
                 div_32768 (int16_at (int16_pairs data) (i * numChannels + ch))))"
  proof (rule decodeAudioData_frames [OF ev nom pos small])
    fix buf
    assume f: "decodeAudioData data ctx sampleRate numChannels = Inr buf"
      "bufferLength buf = length data div (2 * numChannels)"
      "numberOfChannels buf = numChannels"
      "length (channelData buf) = numChannels"
      "\<And>ch. ch < numChannels \<Longrightarrow> length (channelData buf ! ch) = bufferLength buf"
      "\<And>ch i. ch < numChannels \<Longrightarrow> i < bufferLength buf \<Longrightarrow>
           channelData buf ! ch ! i =
             div_32768 (int16_at (int16_pairs data) (i * numChannels + ch))"
    have "\<forall>ch < numChannels. length (channelData buf ! ch) = bufferLength buf \<and>
              (\<forall>i < bufferLength buf. channelData buf ! ch ! i =
                 div_32768 (int16_at (int16_pairs data) (i * numChannels + ch)))"
      using f(5,6) by (intro allI impI conjI)
    with f(1-4) show ?thesis by (intro exI [of _ buf] conjI)
  qed
qed

theorem decodeAudioData_truncation_witness:
  "decodeAudioData [1, 2, 3] example_ctx 24000 1 = Inl RangeError \<and>
   (\<exists>buf. decodeAudioData [0, 64, 255, 255, 0, 128] example_ctx 24000 2 = Inr buf \<and>
      bufferLength buf = 1 \<and> numberOfChannels buf = 2 \<and> length (channelData buf) = 2)"
proof -
  have n: "in_nominal_range example_ctx 2 24000"
    by (simp add: in_nominal_range_def example_ctx_def)
  have "decodeAudioData [1, 2, 3] example_ctx 24000 1 = Inl RangeError"
    using decodeAudioData_truncation [of "[1, 2, 3]" example_ctx 24000 1] by simp
  moreover have "\<exists>buf. decodeAudioData [0, 64, 255, 255, 0, 128] example_ctx 24000 2 = Inr buf \<and>
      bufferLength buf = 1 \<and> numberOfChannels buf = 2 \<and> length (channelData buf) = 2"
    using decodeAudioData_truncation [of "[0, 64, 255, 255, 0, 128]" example_ctx 24000 2] n
    unfolding length_six by auto
  ultimately show ?thesis ..
qed

text \<open>
  The claim as first stated fails for three bytes and one channel: three is not a
  multiple of two, and the decoder throws instead of yielding one frame.
\<close>

theorem decodeAudioData_odd_length_counterexample:
  "length [1, 2, 3 :: u8] mod (2 * 1) \<noteq> 0 \<and>
   decodeAudioData [1, 2, 3] example_ctx 24000 1 = Inl RangeError"
  by (simp add: decodeAudioData_def Int16Array_of_buffer_def)

section \<open>Properties of the scheduler and the session\<close>




text \<open>
  C2, as amended. The cursor and the readings of the output clock are doubles. An
  invocation of \<open>onmessage\<close>, with any message and any reading of the clock, leaves
  the cursor at or above its previous value, and so does any sequence of events.
  After any sequence of events from the initial state every scheduled source starts
  no earlier than the double nearest to the end of each source scheduled before it.
  Whether a source starts before the exact end of an earlier one is left open by this:
  the rounding of the cursor can place it there.
\<close>

theorem cursor_monotone:
  "(is_double (nextStartTimeRef s) \<and> is_double now \<longrightarrow>
      nextStartTimeRef s \<le> nextStartTimeRef (fst (onmessage s msg now))) \<and>
   (is_double (nextStartTimeRef s) \<and> list_all clock_ok evs \<longrightarrow>
      nextStartTimeRef s \<le> nextStartTimeRef (run s evs)) \<and>
   (list_all clock_ok evs \<longrightarrow> ordered_sources (sourcesRef (run initial evs)))"
  using onmessage_cursor_mono [of s now msg] run_cursor_mono [of s evs]
    run_initial_ordered [of evs] by blast

theorem cursor_monotone_witness:
  "nextStartTimeRef connecting \<le> nextStartTimeRef (fst (onmessage connecting (audio_message [65, 69, 65, 61]) 10)) \<and>
   nextStartTimeRef connecting
     \<le> nextStartTimeRef (run connecting
           [Click example_ctx, OnMessage (audio_message [65, 69, 65, 61]) 10, OnMessage (audio_message [65, 69, 65, 61]) 0]) \<and>
   ordered_sources (sourcesRef (run initial
     [Click example_ctx, OnMessage (audio_message [65, 69, 65, 61]) 10, OnMessage (audio_message [65, 69, 65, 61]) 0]))"
proof -
  have c: "is_double (nextStartTimeRef connecting)"
    by (simp add: connecting_state is_double_0)
  have e: "list_all clock_ok [Click example_ctx, OnMessage (audio_message [65, 69, 65, 61]) 10, OnMessage (audio_message [65, 69, 65, 61]) 0]"
    by (simp add: is_double_small is_double_0)
  from cursor_monotone [of connecting 10 "audio_message [65, 69, 65, 61]"
      "[Click example_ctx, OnMessage (audio_message [65, 69, 65, 61]) 10, OnMessage (audio_message [65, 69, 65, 61]) 0]"]
    c e is_double_small(2)
  show ?thesis by blast
qed

text \<open>
  The claim as first stated fails for two chunks of one frame, the first handled at
  clock reading \<open>10\<close>: the cursor is rounded down, and the second chunk starts before
  the first one ends.
\<close>

theorem rounded_cursor_overlap_counterexample:
  "sourcesRef (run initial [Click example_ctx, OnMessage (audio_message [65, 69, 65, 61]) 10, OnMessage (audio_message [65, 69, 65, 61]) 0]) =
     [\<lparr>buffer = example_buffer, startTime = 10\<rparr>,
      \<lparr>buffer = example_buffer, startTime = 5629522990461179 / 562949953421312\<rparr>] \<and>
   overlap \<lparr>buffer = example_buffer, startTime = 10\<rparr>
     \<lparr>buffer = example_buffer, startTime = 5629522990461179 / 562949953421312\<rparr> \<and>
   \<not> disjoint_sources
     (sourcesRef (run initial [Click example_ctx, OnMessage (audio_message [65, 69, 65, 61]) 10, OnMessage (audio_message [65, 69, 65, 61]) 0]))"
proof -
  have v: "round64 (10 + duration example_buffer) = 5629522990461179 / 562949953421312"
    unfolding duration_example_buffer by (rule round64_after_10)
  have r: "run initial [Click example_ctx, OnMessage (audio_message [65, 69, 65, 61]) 10, OnMessage (audio_message [65, 69, 65, 61]) 0] =
      fst (onmessage (fst (onmessage connecting (audio_message [65, 69, 65, 61]) 10)) (audio_message [65, 69, 65, 61]) 0)"
    by (simp add: run_def connecting_def)
  have 1: "sourcesRef (run initial [Click example_ctx, OnMessage (audio_message [65, 69, 65, 61]) 10, OnMessage (audio_message [65, 69, 65, 61]) 0]) =
     [\<lparr>buffer = example_buffer, startTime = 10\<rparr>,
      \<lparr>buffer = example_buffer, startTime = 5629522990461179 / 562949953421312\<rparr>]"
    unfolding r by (simp add: onmessage_AEA connecting_state v)
  have 2: "overlap \<lparr>buffer = example_buffer, startTime = 10\<rparr>
     \<lparr>buffer = example_buffer, startTime = 5629522990461179 / 562949953421312\<rparr>"
    by (simp add: overlap_def endTime_def duration_example_buffer)
  from 1 2 show ?thesis by simp
qed




text \<open>
  C6. The claim does not hold of \<open>stopLiveComm\<close>, which neither stops a source nor
  clears the set nor resets the cursor. In the run below a session is started and
  rendered active, one chunk of one frame is handled at clock reading \<open>100\<close>, the
  button stops the session, and a second session is started, whose audio context
  is new and whose clock starts at \<open>0\<close>. After the stop the source is still in the
  set, the cursor still holds the double just above \<open>100\<close>, and the calls made are those
  on the microphone tracks and the input context only. The first chunk of the second
  session, handled at clock reading \<open>0\<close>, is scheduled at that stale cursor.
\<close>

theorem stop_keeps_sources_and_cursor:
  "sourcesRef (run initial
       [Click example_ctx, OnOpen, Render, Connected, Streaming 2 3 4,
        OnMessage (audio_message [65, 69, 65, 61]) 100, Click example_ctx]) =
     [\<lparr>buffer = example_buffer, startTime = 100\<rparr>] \<and>
   nextStartTimeRef (run initial
       [Click example_ctx, OnOpen, Render, Connected, Streaming 2 3 4,
        OnMessage (audio_message [65, 69, 65, 61]) 100, Click example_ctx]) =
     7036877349797407 / 70368744177664 \<and>
   effects (run initial
       [Click example_ctx, OnOpen, Render, Connected, Streaming 2 3 4,
        OnMessage (audio_message [65, 69, 65, 61]) 100, Click example_ctx]) =
     [NewAudioContext 24000, LiveConnect, ConsoleDebug, GetUserMedia, NewAudioContext 16000,
      SourceStart 100, TracksStop 3, ContextClose 4] \<and>
   sourcesRef (run initial
       [Click example_ctx, OnOpen, Render, Connected, Streaming 2 3 4,
        OnMessage (audio_message [65, 69, 65, 61]) 100, Click example_ctx, Render, Click example_ctx, OnOpen, Render,
        OnMessage (audio_message [65, 69, 65, 61]) 0]) =
     [\<lparr>buffer = example_buffer, startTime = 100\<rparr>,
      \<lparr>buffer = example_buffer, startTime = 7036877349797407 / 70368744177664\<rparr>]"
proof -
  let ?s = "startLiveComm_streaming 2 3 4
              (startLiveComm_connected (render (onopen connecting)))"
  have c: "audioContextRef ?s = Some example_ctx" and n: "nextStartTimeRef ?s = 0"
    and l: "liveSessionRef ?s = Some \<lparr>session = 2, stream = 3, inCtx = 4\<rparr>"
    and src: "sourcesRef ?s = []" and rd: "rendered ?s"
    and e: "effects ?s = [NewAudioContext 24000, LiveConnect, ConsoleDebug, GetUserMedia,
              NewAudioContext 16000]"
    by (simp_all add: onopen_def render_def startLiveComm_connected_def
        startLiveComm_streaming_def connecting_state)
  have v: "round64 (100 + duration example_buffer) = 7036877349797407 / 70368744177664"
    unfolding duration_example_buffer by (rule round64_after_100)
  define m where "m = fst (onmessage ?s (audio_message [65, 69, 65, 61]) 100)"
  have m: "sourcesRef m = [\<lparr>buffer = example_buffer, startTime = 100\<rparr>]"
    "nextStartTimeRef m = 7036877349797407 / 70368744177664" "rendered m"
    "liveSessionRef m = Some \<lparr>session = 2, stream = 3, inCtx = 4\<rparr>"
    "effects m = [NewAudioContext 24000, LiveConnect, ConsoleDebug, GetUserMedia,
              NewAudioContext 16000, SourceStart 100]"
    unfolding m_def by (simp_all add: onmessage_AEA [OF c] n l src rd e v)
  define t where "t = onClick example_ctx m"
  have t: "sourcesRef t = [\<lparr>buffer = example_buffer, startTime = 100\<rparr>]"
    "nextStartTimeRef t = 7036877349797407 / 70368744177664"
    "\<not> isLiveActive t"
    "effects t = [NewAudioContext 24000, LiveConnect, ConsoleDebug, GetUserMedia,
              NewAudioContext 16000, SourceStart 100, TracksStop 3, ContextClose 4]"
    unfolding t_def by (simp_all add: onClick_fields onClick_effects m)
  define u where "u = render (onopen (onClick example_ctx (render t)))"
  have u: "audioContextRef u = Some example_ctx"
    "sourcesRef u = [\<lparr>buffer = example_buffer, startTime = 100\<rparr>]"
    "nextStartTimeRef u = 7036877349797407 / 70368744177664"
    unfolding u_def by (simp_all add: render_fields onopen_fields onClick_fields t)
  have r1: "run initial
       [Click example_ctx, OnOpen, Render, Connected, Streaming 2 3 4,
        OnMessage (audio_message [65, 69, 65, 61]) 100, Click example_ctx] = t"
    unfolding t_def m_def by (simp add: run_def connecting_def)
  have r2: "run initial
       [Click example_ctx, OnOpen, Render, Connected, Streaming 2 3 4,
        OnMessage (audio_message [65, 69, 65, 61]) 100, Click example_ctx, Render, Click example_ctx, OnOpen, Render,
        OnMessage (audio_message [65, 69, 65, 61]) 0] = fst (onmessage u (audio_message [65, 69, 65, 61]) 0)"
    unfolding u_def t_def m_def by (simp add: run_def connecting_def)
  show ?thesis unfolding r1 r2 by (simp add: t onmessage_AEA [OF u(1)] u)
qed

text \<open>
  C7, as amended. \<open>onerror\<close> logs the error and changes nothing else; in particular
  \<open>isLiveActive\<close> keeps its value. The flag is cleared by \<open>onclose\<close> (or by
  \<open>stopLiveComm\<close>).
\<close>

theorem onerror_only_logs:
  "onerror e s = s\<lparr>effects := effects s @ [ConsoleError e]\<rparr> \<and>
   isLiveActive (onerror e s) = isLiveActive s \<and>
   \<not> isLiveActive (onclose (onerror e s))"
  by (simp add: onerror_def onclose_def)

text \<open>
  The claim as first stated fails in an active session: the flag is still set after
  the error callback.
\<close>

theorem onerror_keeps_active_counterexample:
  "isLiveActive (onopen (startLiveComm False example_ctx initial)) \<and>
   isLiveActive (onerror ''transport failure''
     (onopen (startLiveComm False example_ctx initial)))"
  by (simp add: onerror_def onopen_def)

text \<open>
  C10. When the message carries no audio payload (the chain of optional accesses
  yields nothing or an empty string, or throws because the model turn has no parts),
  or when \<open>audioContextRef\<close> is not set, \<open>onmessage\<close> leaves the whole state as it
  is, the cursor and the set of sources in particular, and schedules no source: it
  returns at its guard or throws the \<open>TypeError\<close> of the access.
\<close>

theorem onmessage_without_audio:
  assumes "(\<forall>b. audio_of msg = Inr (Some b) \<longrightarrow> b = []) \<or> audioContextRef s = None"
  shows "fst (onmessage s msg now) = s \<and>
         nextStartTimeRef (fst (onmessage s msg now)) = nextStartTimeRef s \<and>
         sourcesRef (fst (onmessage s msg now)) = sourcesRef s \<and>
         effects (fst (onmessage s msg now)) = effects s \<and>
         (snd (onmessage s msg now) = Skipped \<or> snd (onmessage s msg now) = Threw TypeError)"
proof -
  have e: "e = TypeError" if "audio_of msg = Inl e" for e
    using that by (auto simp: audio_of_def split: option.splits list.splits)
  have "fst (onmessage s msg now) = s \<and>
        (snd (onmessage s msg now) = Skipped \<or> snd (onmessage s msg now) = Threw TypeError)"
    using assms e by (auto simp: onmessage_def split: sum.splits option.splits)
  then show ?thesis by simp
qed

theorem onmessage_without_audio_witness:
  "(fst (onmessage connecting no_parts_message 1) = connecting \<and>
    nextStartTimeRef (fst (onmessage connecting no_parts_message 1)) =
      nextStartTimeRef connecting \<and>
    sourcesRef (fst (onmessage connecting no_parts_message 1)) = sourcesRef connecting \<and>
    effects (fst (onmessage connecting no_parts_message 1)) = effects connecting \<and>
    (snd (onmessage connecting no_parts_message 1) = Skipped \<or>
     snd (onmessage connecting no_parts_message 1) = Threw TypeError)) \<and>
   (fst (onmessage connecting (audio_message []) 1) = connecting \<and>
    nextStartTimeRef (fst (onmessage connecting (audio_message []) 1)) =
      nextStartTimeRef connecting \<and>
    sourcesRef (fst (onmessage connecting (audio_message []) 1)) = sourcesRef connecting \<and>
    effects (fst (onmessage connecting (audio_message []) 1)) = effects connecting \<and>
    (snd (onmessage connecting (audio_message []) 1) = Skipped \<or>
     snd (onmessage connecting (audio_message []) 1) = Threw TypeError)) \<and>
   (fst (onmessage initial (audio_message [65, 69, 65, 61]) 1) = initial \<and>
    nextStartTimeRef (fst (onmessage initial (audio_message [65, 69, 65, 61]) 1)) = nextStartTimeRef initial \<and>
    sourcesRef (fst (onmessage initial (audio_message [65, 69, 65, 61]) 1)) = sourcesRef initial \<and>
    effects (fst (onmessage initial (audio_message [65, 69, 65, 61]) 1)) = effects initial \<and>
    (snd (onmessage initial (audio_message [65, 69, 65, 61]) 1) = Skipped \<or>
     snd (onmessage initial (audio_message [65, 69, 65, 61]) 1) = Threw TypeError))"
proof -
  have 1: "(\<forall>b. audio_of no_parts_message = Inr (Some b) \<longrightarrow> b = []) \<or>
        audioContextRef connecting = None"
    by (simp add: audio_of_def no_parts_message_def)
  have 2: "(\<forall>b. audio_of (audio_message []) = Inr (Some b) \<longrightarrow> b = []) \<or>
        audioContextRef connecting = None"
    by (simp add: audio_of_def audio_message_def)
  have 3: "(\<forall>b. audio_of (audio_message [65, 69, 65, 61]) = Inr (Some b) \<longrightarrow> b = []) \<or>
        audioContextRef initial = None"
    by (simp add: initial_def)
  from onmessage_without_audio [OF 1, of 1] onmessage_without_audio [OF 2, of 1]
    onmessage_without_audio [OF 3, of 1]
  show ?thesis by (intro conjI) blast+
qed

end
